theory Spec2Isabelle
  imports Main "HOL-Library.Sublist"
begin

section \<open>Strings of the source language\<close>

text \<open>
  A source string is modelled as a \<^typ>\<open>string\<close>: one \<^typ>\<open>char\<close> per code unit, for the
  code units below 256. Within that range the white space of \<^verbatim>\<open>\s\<close> and of
  \<^verbatim>\<open>String.prototype.trim\<close> is TAB, LF, VT, FF, CR, SPACE and NBSP, and \<^verbatim>\<open>\w\<close> is
  \<^verbatim>\<open>[A-Za-z0-9_]\<close>.
\<close>

definition rx_space :: "char \<Rightarrow> bool" where
  "rx_space c = (c \<in> set [CHR 0x09, CHR 0x0A, CHR 0x0B, CHR 0x0C, CHR 0x0D, CHR 0x20, CHR 0xA0])"

definition rx_word :: "char \<Rightarrow> bool" where
  "rx_word c = (c \<in> set ''abcdefghijklmnopqrstuvwxyzABCDEFGHIJKLMNOPQRSTUVWXYZ0123456789_'')"

definition rx_any :: "char \<Rightarrow> bool" where
  \<comment> \<open>\<^verbatim>\<open>[\s\S]\<close>\<close>
  "rx_any c = (rx_space c \<or> \<not> rx_space c)"

definition trim :: "string \<Rightarrow> string" where
  \<comment> \<open>\<^verbatim>\<open>String.prototype.trim\<close>\<close>
  "trim s = rev (dropWhile rx_space (rev (dropWhile rx_space s)))"

definition startsWith :: "string \<Rightarrow> string \<Rightarrow> bool" where
  "startsWith s p = prefix p s"

definition endsWith :: "string \<Rightarrow> string \<Rightarrow> bool" where
  "endsWith s p = suffix p s"

section \<open>Regular expressions: a backtracking matcher\<close>

text \<open>
  The patterns of the source use literals, character classes, the greedy quantifiers
  \<^verbatim>\<open>*\<close> and \<^verbatim>\<open>+\<close> and the lazy \<^verbatim>\<open>*?\<close> on character classes only, \<^verbatim>\<open>?\<close> on a group,
  alternation, capture groups, a lookahead and \<^verbatim>\<open>$\<close> (no \<^verbatim>\<open>m\<close> flag: end of input).
  The matcher is the backtracking one of the language definition, written with
  continuations: a matcher takes the continuation for the rest of the pattern and a state
  (the input still to read, the captures), and gives the first success in priority order.
\<close>

datatype rx =
    Lit string
  | Cls "char \<Rightarrow> bool"
  | Star "char \<Rightarrow> bool"
  | LazyStar "char \<Rightarrow> bool"
  | Plus "char \<Rightarrow> bool"
  | Opt rx
  | Seq rx rx
  | Alt rx rx
  | Grp nat rx
  | Ahead rx
  | Eos

type_synonym captures = "nat \<Rightarrow> string option"
type_synonym mstate = "string \<times> captures"
type_synonym cont = "mstate \<Rightarrow> mstate option"

fun lit :: "string \<Rightarrow> string \<Rightarrow> string option" where
  "lit [] s = Some s"
| "lit (c # cs) [] = None"
| "lit (c # cs) (x # xs) = (if c = x then lit cs xs else None)"

fun star_g :: "(char \<Rightarrow> bool) \<Rightarrow> (string \<Rightarrow> 'a option) \<Rightarrow> string \<Rightarrow> 'a option" where
  "star_g p k [] = k []"
| "star_g p k (x # xs) =
     (if p x then (case star_g p k xs of Some r \<Rightarrow> Some r | None \<Rightarrow> k (x # xs))
      else k (x # xs))"

fun star_l :: "(char \<Rightarrow> bool) \<Rightarrow> (string \<Rightarrow> 'a option) \<Rightarrow> string \<Rightarrow> 'a option" where
  "star_l p k [] = k []"
| "star_l p k (x # xs) =
     (case k (x # xs) of Some r \<Rightarrow> Some r
      | None \<Rightarrow> if p x then star_l p k xs else None)"

primrec rmatch :: "rx \<Rightarrow> cont \<Rightarrow> cont" where
  "rmatch (Lit l) k =
     (\<lambda>(s, c). case lit l s of None \<Rightarrow> None | Some s' \<Rightarrow> k (s', c))"
| "rmatch (Cls p) k =
     (\<lambda>(s, c). case s of [] \<Rightarrow> None | x # xs \<Rightarrow> if p x then k (xs, c) else None)"
| "rmatch (Star p) k = (\<lambda>(s, c). star_g p (\<lambda>s'. k (s', c)) s)"
| "rmatch (LazyStar p) k = (\<lambda>(s, c). star_l p (\<lambda>s'. k (s', c)) s)"
| "rmatch (Plus p) k =
     (\<lambda>(s, c). case s of [] \<Rightarrow> None
        | x # xs \<Rightarrow> if p x then star_g p (\<lambda>s'. k (s', c)) xs else None)"
| "rmatch (Opt r) k =
     (\<lambda>(s, c).
        case rmatch r (\<lambda>(s', c'). if length s' = length s then None else k (s', c')) (s, c) of
          Some x \<Rightarrow> Some x
        | None \<Rightarrow> k (s, c))"
| "rmatch (Seq a b) k = rmatch a (rmatch b k)"
| "rmatch (Alt a b) k =
     (\<lambda>st. case rmatch a k st of Some x \<Rightarrow> Some x | None \<Rightarrow> rmatch b k st)"
| "rmatch (Grp i r) k =
     (\<lambda>(s, c). rmatch r (\<lambda>(s', c'). k (s', c'(i := Some (take (length s - length s') s)))) (s, c))"
| "rmatch (Ahead r) k =
     (\<lambda>(s, c). case rmatch r Some (s, c) of None \<Rightarrow> None | Some (s', c') \<Rightarrow> k (s, c'))"
| "rmatch Eos k = (\<lambda>(s, c). if s = [] then k (s, c) else None)"

fun seqs :: "rx list \<Rightarrow> rx" where
  "seqs [] = Lit []"
| "seqs [r] = r"
| "seqs (r # rs) = Seq r (seqs rs)"

text \<open>
  A match object: the text before the match (its length is \<^verbatim>\<open>index\<close>), the matched
  text (\<^verbatim>\<open>m[0]\<close>), the captures (\<^verbatim>\<open>m[i]\<close>, \<open>None\<close> for \<^verbatim>\<open>undefined\<close>) and the text
  after the match (where \<^verbatim>\<open>lastIndex\<close> of a global pattern points).
\<close>

record rx_match =
  preceding :: string
  matched :: string
  groups :: captures
  following :: string

definition no_captures :: captures where
  "no_captures = (\<lambda>_. None)"

definition match_here :: "rx \<Rightarrow> string \<Rightarrow> rx_match option" where
  "match_here r s =
     (case rmatch r Some (s, no_captures) of
        None \<Rightarrow> None
      | Some (s', c) \<Rightarrow>
          Some \<lparr>preceding = [], matched = take (length s - length s') s, groups = c, following = s'\<rparr>)"

fun rx_exec :: "rx \<Rightarrow> string \<Rightarrow> rx_match option" where
  "rx_exec r [] = match_here r []"
| "rx_exec r (x # xs) =
     (case match_here r (x # xs) of
        Some m \<Rightarrow> Some m
      | None \<Rightarrow> map_option (\<lambda>m. m\<lparr>preceding := x # preceding m\<rparr>) (rx_exec r xs))"

subsection \<open>A match consumes a prefix of the input\<close>

text \<open>
  Whatever the pattern, the continuation is entered on a suffix of the input, so a match
  object splits the subject into the text before it, the match and the text after it. The loops
  over a global pattern below terminate by this.
\<close>

lemma lit_Some_iff: "lit l s = Some s' \<longleftrightarrow> s = l @ s'"
  by (induction l s rule: lit.induct) auto

lemma lit_None_iff: "lit l s = None \<longleftrightarrow> \<not> prefix l s"
  by (induction l s rule: lit.induct) auto

lemma lit_append [simp]: "lit l (l @ s) = Some s"
  by (simp add: lit_Some_iff)

lemma star_g_suffix: "star_g p k s = Some r \<Longrightarrow> \<exists>s'. k s' = Some r \<and> suffix s' s"
proof (induction s)
  case Nil
  then show ?case by auto
next
  case (Cons x xs)
  show ?case
  proof (cases "p x \<and> star_g p k xs \<noteq> None")
    case True
    with Cons.prems have "star_g p k xs = Some r" by auto
    with Cons.IH obtain s' where "k s' = Some r" "suffix s' xs" by blast
    then show ?thesis by (auto intro: suffix_ConsI)
  next
    case False
    with Cons.prems have "k (x # xs) = Some r" by (auto split: if_splits option.splits)
    then show ?thesis by auto
  qed
qed

lemma star_l_suffix: "star_l p k s = Some r \<Longrightarrow> \<exists>s'. k s' = Some r \<and> suffix s' s"
proof (induction s)
  case Nil
  then show ?case by auto
next
  case (Cons x xs)
  show ?case
  proof (cases "k (x # xs)")
    case None
    with Cons.prems have "star_l p k xs = Some r" by (auto split: if_splits)
    with Cons.IH obtain s' where "k s' = Some r" "suffix s' xs" by blast
    then show ?thesis by (auto intro: suffix_ConsI)
  next
    case (Some a)
    with Cons.prems show ?thesis by auto
  qed
qed

lemma rmatch_suffix:
  "rmatch r k (s, c) = Some res \<Longrightarrow> \<exists>s' c'. k (s', c') = Some res \<and> suffix s' s"
proof (induction r arbitrary: k s c)
  case (Lit l)
  then show ?case by (auto split: option.splits simp: lit_Some_iff intro: suffixI)
next
  case (Cls p)
  then show ?case by (auto split: list.splits if_splits intro: suffix_ConsI)
next
  case (Star p)
  then show ?case using star_g_suffix[of p "\<lambda>s'. k (s', c)" s res] by auto
next
  case (LazyStar p)
  then show ?case using star_l_suffix[of p "\<lambda>s'. k (s', c)" s res] by auto
next
  case (Plus p)
  then obtain x xs where s: "s = x # xs" "p x" "star_g p (\<lambda>s'. k (s', c)) xs = Some res"
    by (auto split: list.splits if_splits)
  from star_g_suffix[OF s(3)] s(1) show ?case by (auto intro: suffix_ConsI)
next
  case (Opt r)
  show ?case
  proof (cases "rmatch r (\<lambda>(s', c'). if length s' = length s then None else k (s', c')) (s, c)")
    case None
    with Opt.prems show ?thesis by auto
  next
    case (Some a)
    with Opt.prems have "rmatch r (\<lambda>(s', c'). if length s' = length s then None else k (s', c')) (s, c) = Some res"
      by auto
    from Opt.IH[OF this] show ?thesis by (auto split: if_splits)
  qed
next
  case (Seq a b)
  from Seq.prems have "rmatch a (rmatch b k) (s, c) = Some res" by simp
  from Seq.IH(1)[OF this] obtain s1 c1 where 1: "rmatch b k (s1, c1) = Some res" "suffix s1 s" by blast
  from Seq.IH(2)[OF 1(1)] obtain s2 c2 where "k (s2, c2) = Some res" "suffix s2 s1" by blast
  with 1(2) show ?case by (blast intro: suffix_order.trans)
next
  case (Alt a b)
  then show ?case by (auto split: option.splits)
next
  case (Grp i r)
  from Grp.prems
  have "rmatch r (\<lambda>(s', c'). k (s', c'(i := Some (take (length s - length s') s)))) (s, c) = Some res"
    by simp
  from Grp.IH[OF this] show ?case by auto
next
  case (Ahead r)
  then show ?case by (auto split: option.splits)
next
  case Eos
  then show ?case by (auto split: if_splits)
qed

lemma match_here_parts:
  "match_here r s = Some m \<Longrightarrow> preceding m = [] \<and> s = matched m @ following m"
  unfolding match_here_def
  by (auto split: option.splits dest!: rmatch_suffix simp: suffix_def)

lemma rx_exec_parts: "rx_exec r s = Some m \<Longrightarrow> s = preceding m @ matched m @ following m"
proof (induction s arbitrary: m)
  case Nil
  then show ?case using match_here_parts[of r "[]" m] by simp
next
  case (Cons x xs)
  show ?case
  proof (cases "match_here r (x # xs)")
    case None
    with Cons.prems obtain m' where m': "rx_exec r xs = Some m'" "m = m'\<lparr>preceding := x # preceding m'\<rparr>"
      by auto
    from Cons.IH[OF m'(1)] m'(2) show ?thesis by simp
  next
    case (Some a)
    with Cons.prems have "match_here r (x # xs) = Some m" by simp
    from match_here_parts[OF this] show ?thesis by simp
  qed
qed

lemma rx_exec_after_le: "rx_exec r s = Some m \<Longrightarrow> length (following m) \<le> length s"
  by (drule rx_exec_parts) (metis length_append le_add2 trans_le_add2)

section \<open>Response decomposition (Home.tsx, parseResponse)\<close>

datatype js_error = TypeError

record CodeFile =
  name :: string
  lang :: string
  content :: string

record StructuredDocument =
  header :: string
  "structure" :: string
  "notes" :: string
  files :: "CodeFile list"

definition headerRegex :: rx where
  "headerRegex = seqs [Lit ''### 4.1. Header Block'', Star rx_space, Grp 1 (LazyStar rx_any),
     Star rx_space, Lit ''### 4.2. Project Structure'']"

definition structureRegex :: rx where
  "structureRegex = seqs [Lit ''### 4.2. Project Structure'', Star rx_space,
     Grp 1 (LazyStar rx_any), Star rx_space, Lit ''### 4.3. Code Files'']"

definition notesRegex :: rx where
  "notesRegex = seqs [Lit ''### 4.4. Notes'', Star rx_space, Grp 1 (Star rx_any)]"

definition filesSectionRegex :: rx where
  "filesSectionRegex = seqs [Lit ''### 4.3. Code Files (Full & Unabridged)'', Star rx_space,
     Grp 1 (LazyStar rx_any),
     Ahead (Alt (Seq (Star rx_space) (Lit ''### 4.4. Notes'')) Eos)]"

definition rx_name :: "char \<Rightarrow> bool" where
  \<comment> \<open>\<^verbatim>\<open>[\w.\/\\-]\<close>\<close>
  "rx_name c = (rx_word c \<or> c \<in> set [CHR ''.'', CHR ''/'', CHR 0x5C, CHR ''-''])"

definition codeBlockRegex :: rx where
  "codeBlockRegex = seqs [Lit ''```'', Grp 1 (Star rx_word), Opt (Lit '':''),
     Opt (Grp 2 (Plus rx_name)), Lit ''\<newline>'', Grp 3 (LazyStar rx_any), Lit ''\<newline>```'']"

definition fallbackRegex :: rx where
  "fallbackRegex = seqs [Lit ''```'', Opt (Star rx_word), Star rx_space,
     Grp 1 (LazyStar rx_any), Lit ''```'']"

definition group_trim :: "rx_match \<Rightarrow> nat \<Rightarrow> js_error + string" where
  \<comment> \<open>\<^verbatim>\<open>m[i].trim()\<close>: a TypeError when the group is undefined\<close>
  "group_trim m i = (case groups m i of None \<Rightarrow> Inl TypeError | Some g \<Rightarrow> Inr (trim g))"

definition section_text :: "rx \<Rightarrow> string \<Rightarrow> js_error + string" where
  \<comment> \<open>\<^verbatim>\<open>m ? m[1].trim() : ''\<close> for \<^verbatim>\<open>m = text.match(r)\<close>\<close>
  "section_text r text = (case rx_exec r text of None \<Rightarrow> Inr [] | Some m \<Rightarrow> group_trim m 1)"

definition or_default :: "string option \<Rightarrow> string \<Rightarrow> string" where
  \<comment> \<open>\<^verbatim>\<open>v || d\<close> on a string or undefined: the empty string is falsy\<close>
  "or_default v d = (case v of None \<Rightarrow> d | Some s \<Rightarrow> if s = [] then d else s)"

definition bind_r :: "'e + 'a \<Rightarrow> ('a \<Rightarrow> 'e + 'b) \<Rightarrow> 'e + 'b" where
  "bind_r x f = (case x of Inl e \<Rightarrow> Inl e | Inr v \<Rightarrow> f v)"

definition js_to_string :: "string option \<Rightarrow> string" where
  \<comment> \<open>the subject of \<^verbatim>\<open>exec\<close> is converted to a string\<close>
  "js_to_string v = (case v of None \<Rightarrow> ''undefined'' | Some s \<Rightarrow> s)"

lemma rmatch_lit_head:
  assumes "rmatch (Seq (Lit l) r) k (s, c) = Some res"
  shows "\<exists>s1 s' c'. s = l @ s1 \<and> k (s', c') = Some res \<and> suffix s' s1"
proof -
  from assms obtain s1 where s1: "lit l s = Some s1" "rmatch r k (s1, c) = Some res"
    by (auto split: option.splits)
  from rmatch_suffix[OF s1(2)] s1(1) show ?thesis by (auto simp: lit_Some_iff)
qed

lemma codeBlock_match_shorter:
  assumes "rx_exec codeBlockRegex s = Some m"
  shows "length (following m) < length s"
proof -
  have here: "length (following m') < length t" if "match_here codeBlockRegex t = Some m'" for t m'
  proof -
    from that obtain s' c where r: "rmatch codeBlockRegex Some (t, no_captures) = Some (s', c)"
      and m': "following m' = s'"
      by (auto simp: match_here_def split: option.splits)
    from r have "rmatch (Seq (Lit ''```'') (seqs [Grp 1 (Star rx_word), Opt (Lit '':''),
       Opt (Grp 2 (Plus rx_name)), Lit ''\<newline>'', Grp 3 (LazyStar rx_any), Lit ''\<newline>```'']))
       Some (t, no_captures) = Some (s', c)"
      by (simp add: codeBlockRegex_def)
    from rmatch_lit_head[OF this] obtain s1 where "t = ''```'' @ s1" "suffix s' s1"
      by auto
    then have "length s' < length t" by (auto simp: suffix_def)
    with m' show ?thesis by simp
  qed
  from assms show ?thesis
  proof (induction s arbitrary: m)
    case Nil
    then show ?case using here[of "[]" m] by simp
  next
    case (Cons x xs)
    show ?case
    proof (cases "match_here codeBlockRegex (x # xs)")
      case None
      with Cons.prems obtain m' where m': "rx_exec codeBlockRegex xs = Some m'"
        "m = m'\<lparr>preceding := x # preceding m'\<rparr>"
        by auto
      from rx_exec_after_le[OF m'(1)] m'(2) show ?thesis by simp
    next
      case (Some a)
      with Cons.prems have "match_here codeBlockRegex (x # xs) = Some m" by simp
      from here[OF this] show ?thesis .
    qed
  qed
qed

text \<open>
  The loop \<^verbatim>\<open>while ((match = codeBlockRegex.exec(section)) !== null)\<close> over the global
  pattern: each round starts where the last match ended.
\<close>

function codeBlocks :: "string \<Rightarrow> js_error + CodeFile list" where
  "codeBlocks s =
     (case rx_exec codeBlockRegex s of
        None \<Rightarrow> Inr []
      | Some m \<Rightarrow>
          bind_r (group_trim m 3) (\<lambda>body.
          bind_r (codeBlocks (following m)) (\<lambda>fs.
            Inr (\<lparr>name = or_default (groups m 2) ''untitled'',
                  lang = or_default (groups m 1) ''text'',
                  content = body\<rparr> # fs))))"
  by pat_completeness auto
termination
  by (relation "measure length") (auto dest: codeBlock_match_shorter)

declare codeBlocks.simps [simp del]

definition filesSection :: "string \<Rightarrow> string option" where
  \<comment> \<open>\<^verbatim>\<open>filesSectionMatch[1]\<close>, as \<^verbatim>\<open>exec\<close> reads it; \<open>None\<close> when there is no match\<close>
  "filesSection text =
     map_option (\<lambda>m. js_to_string (groups m 1)) (rx_exec filesSectionRegex text)"

definition sectionFiles :: "string \<Rightarrow> js_error + CodeFile list" where
  \<comment> \<open>the files list when line 198 is passed\<close>
  "sectionFiles text =
     (case filesSection text of None \<Rightarrow> Inr [] | Some sec \<Rightarrow> codeBlocks sec)"

definition fallbackFiles :: "string \<Rightarrow> js_error + CodeFile list" where
  \<comment> \<open>lines 200 to 211, entered with no file found\<close>
  "fallbackFiles text =
     (case rx_exec fallbackRegex text of
        None \<Rightarrow> Inr []
      | Some m \<Rightarrow>
          bind_r (group_trim m 1) (\<lambda>body.
            Inr [\<lparr>name = ''code.js'', lang = ''javascript'', content = body\<rparr>]))"

definition parseResponse :: "string \<Rightarrow> js_error + StructuredDocument" where
  "parseResponse text =
     bind_r (section_text headerRegex text) (\<lambda>h.
     bind_r (section_text structureRegex text) (\<lambda>st.
     bind_r (section_text notesRegex text) (\<lambda>n.
     bind_r (sectionFiles text) (\<lambda>fs.
     bind_r (if fs = [] then fallbackFiles text else Inr fs) (\<lambda>fs'.
       Inr \<lparr>header = h, structure = st, notes = n, files = fs'\<rparr>)))))"

section \<open>The preview component (CodePreview)\<close>

definition initialSelectedFile :: "CodeFile list \<Rightarrow> CodeFile option" where
  \<comment> \<open>\<^verbatim>\<open>files.find((f) => f.name === 'index.html') || files[0]\<close>; \<open>None\<close> is \<^verbatim>\<open>undefined\<close>\<close>
  "initialSelectedFile fs =
     (case find (\<lambda>f. name f = ''index.html'') fs of
        Some f \<Rightarrow> Some f
      | None \<Rightarrow> (case fs of [] \<Rightarrow> None | f # _ \<Rightarrow> Some f))"

subsection \<open>Object URLs\<close>

text \<open>
  The browser keeps the blobs that have an object URL. The URL it hands out is its own
  choice: \<open>gen\<close> is the URL of the \<open>n\<close>-th blob registered.
\<close>

record blob =
  blob_parts :: string
  blob_type :: string

record url_store =
  issued :: nat
  live :: "(string \<times> blob) list"

definition createObjectURL :: "(nat \<Rightarrow> string) \<Rightarrow> url_store \<Rightarrow> blob \<Rightarrow> string \<times> url_store" where
  "createObjectURL gen st b =
     (let u = gen (issued st) in (u, \<lparr>issued = Suc (issued st), live = live st @ [(u, b)]\<rparr>))"

definition mimeTypeOf :: "string \<Rightarrow> string" where
  "mimeTypeOf n =
     (if endsWith n ''.html'' then ''text/html''
      else if endsWith n ''.css'' then ''text/css''
      else if endsWith n ''.js'' then ''application/javascript''
      else if endsWith n ''.json'' then ''application/json''
      else if endsWith n ''.svg'' then ''image/svg+xml''
      else ''text/plain'')"

text \<open>
  \<^verbatim>\<open>blobUrls\<close> is a \<^verbatim>\<open>Map\<close>: an association list in insertion order, where setting a key
  that is present replaces its value in place.
\<close>

fun map_set :: "(string \<times> string) list \<Rightarrow> string \<Rightarrow> string \<Rightarrow> (string \<times> string) list" where
  "map_set [] k v = [(k, v)]"
| "map_set ((k', v') # kvs) k v = (if k' = k then (k, v) # kvs else (k', v') # map_set kvs k v)"

fun createBlobUrls ::
  "(nat \<Rightarrow> string) \<Rightarrow> CodeFile list \<Rightarrow> (string \<times> string) list \<times> url_store
   \<Rightarrow> (string \<times> string) list \<times> url_store" where
  "createBlobUrls gen [] acc = acc"
| "createBlobUrls gen (file # fs) (blobUrls, st) =
     (let (u, st') = createObjectURL gen st
                       \<lparr>blob_parts = content file, blob_type = mimeTypeOf (name file)\<rparr>
      in createBlobUrls gen fs (map_set blobUrls (name file) u, st'))"

subsection \<open>Rewriting references\<close>

definition rx_quote :: "char \<Rightarrow> bool" where
  \<comment> \<open>\<^verbatim>\<open>["']\<close>\<close>
  \<open>rx_quote c = (c \<in> set [CHR ''"'', CHR 0x27])\<close>

definition rx_not_quote :: "char \<Rightarrow> bool" where
  \<comment> \<open>\<^verbatim>\<open>[^"']\<close>\<close>
  "rx_not_quote c = (\<not> rx_quote c)"

definition refRegex :: rx where
  "refRegex = seqs [Grp 1 (Alt (Lit ''href'') (Lit ''src'')), Lit ''='', Cls rx_quote,
     Opt (Grp 2 (Alt (Lit ''./'') (Lit []))), Grp 3 (Plus rx_not_quote), Cls rx_quote]"

text \<open>
  \<^verbatim>\<open>String.prototype.replace\<close> with a global pattern and a replacer function: the matches
  are found from left to right, each search starting where the last match ended (one code
  unit further after an empty match), and each match is replaced by what the replacer
  returns for it.
\<close>

function replaceAll :: "rx \<Rightarrow> (rx_match \<Rightarrow> js_error + string) \<Rightarrow> string \<Rightarrow> js_error + string" where
  "replaceAll r f s =
     (case rx_exec r s of
        None \<Rightarrow> Inr s
      | Some m \<Rightarrow>
          bind_r (f m) (\<lambda>rep.
          bind_r (if matched m = [] then
                    (case following m of
                       [] \<Rightarrow> Inr []
                     | x # xs \<Rightarrow> bind_r (replaceAll r f xs) (\<lambda>t. Inr (x # t)))
                  else replaceAll r f (following m)) (\<lambda>t.
            Inr (preceding m @ rep @ t))))"
  by pat_completeness auto
termination
proof (relation "measure (\<lambda>(r, f, s). length s)")
  show "wf (measure (\<lambda>(r, f, s). length s))" by simp
next
  fix r :: rx and f :: "rx_match \<Rightarrow> js_error + string" and s m x xs
  assume "rx_exec r s = Some m" "following m = x # xs"
  with rx_exec_after_le[of r s m]
  show "((r, f, xs), (r, f, s)) \<in> measure (\<lambda>(r, f, s). length s)" by simp
next
  fix r :: rx and f :: "rx_match \<Rightarrow> js_error + string" and s m
  assume m: "rx_exec r s = Some m" and "matched m \<noteq> []"
  with rx_exec_parts[OF m] have "length (following m) < length s"
    by (metis length_append length_greater_0_conv add_strict_increasing add.commute
        le_add1 less_add_same_cancel2 trans_less_add1)
  then show "((r, f, following m), (r, f, s)) \<in> measure (\<lambda>(r, f, s). length s)" by simp
qed

declare replaceAll.simps [simp del]

definition replaceRef :: "(string \<rightharpoonup> string) \<Rightarrow> rx_match \<Rightarrow> js_error + string" where
  \<comment> \<open>the replacer \<^verbatim>\<open>(match, attr, prefix, path) => ...\<close>\<close>
  \<open>replaceRef blobUrls m =
     (case groups m 3 of
        None \<Rightarrow> Inl TypeError
      | Some path \<Rightarrow>
          (let absolutePath = (if startsWith path ''/'' then drop 1 path else path) in
           case blobUrls absolutePath of
             Some u \<Rightarrow> Inr (js_to_string (groups m 1) @ ''="'' @ u @ ''"'')
           | None \<Rightarrow> Inr (matched m)))\<close>

definition rewriteRefs :: "(string \<rightharpoonup> string) \<Rightarrow> string \<Rightarrow> js_error + string" where
  "rewriteRefs blobUrls html = replaceAll refRegex (replaceRef blobUrls) html"

subsection \<open>The preview effect and the frame\<close>

definition noIndexPlaceholder :: string where
  \<open>noIndexPlaceholder =
     ''<div class="flex items-center justify-center h-full text-gray-500"><h2>No index.html found to preview.</h2></div>''\<close>

record preview_result =
  previewContent :: string
  store :: url_store
  cleanup :: "string list"

definition previewEffect ::
  "(nat \<Rightarrow> string) \<Rightarrow> CodeFile list \<Rightarrow> url_store \<Rightarrow> js_error + preview_result" where
  \<comment> \<open>the effect of lines 72 to 118; \<open>cleanup\<close> lists the URLs its cleanup revokes\<close>
  "previewEffect gen fs st =
     (case find (\<lambda>f. name f = ''index.html'') fs of
        None \<Rightarrow> Inr \<lparr>previewContent = noIndexPlaceholder, store = st, cleanup = []\<rparr>
      | Some mainHtmlFile \<Rightarrow>
          (let (blobUrls, st') = createBlobUrls gen fs ([], st) in
           bind_r (rewriteRefs (map_of blobUrls) (content mainHtmlFile)) (\<lambda>processedHtml.
             Inr \<lparr>previewContent = processedHtml, store = st', cleanup = map snd blobUrls\<rparr>)))"

record iframe =
  srcDoc :: string
  title :: string
  sandbox :: string

definition renderPreview :: "string \<Rightarrow> iframe" where
  "renderPreview c = \<lparr>srcDoc = c, title = ''Project Preview'',
     sandbox = ''allow-scripts allow-same-origin''\<rparr>"

text \<open>
  The browser reads the \<^verbatim>\<open>sandbox\<close> attribute as a set of tokens separated by ASCII white
  space (TAB, LF, FF, CR, SPACE): every restriction of the sandbox holds but those a token
  lifts.
\<close>

definition ascii_space :: "char \<Rightarrow> bool" where
  "ascii_space c = (c \<in> set [CHR 0x09, CHR 0x0A, CHR 0x0C, CHR 0x0D, CHR 0x20])"

fun split_tokens :: "string \<Rightarrow> string \<Rightarrow> string list" where
  "split_tokens cur [] = (if cur = [] then [] else [cur])"
| "split_tokens cur (c # cs) =
     (if ascii_space c then (if cur = [] then split_tokens [] cs else cur # split_tokens [] cs)
      else split_tokens (cur @ [c]) cs)"

definition sandboxTokens :: "iframe \<Rightarrow> string set" where
  "sandboxTokens fr = set (split_tokens [] (sandbox fr))"

section \<open>The generation cycle (Home.tsx, generateCode)\<close>

record home_state =
  imageBase64 :: string
  urlInput :: string
  "output" :: "StructuredDocument option"
  loading :: bool
  showErrorModal :: bool

datatype gen_result = Rejected | Resolved "string option"

definition parseResponseOf :: "string option \<Rightarrow> js_error + StructuredDocument" where
  \<comment> \<open>\<^verbatim>\<open>parseResponse(responseText)\<close>: \<^verbatim>\<open>text.match\<close> on \<^verbatim>\<open>undefined\<close> is a TypeError\<close>
  "parseResponseOf t = (case t of None \<Rightarrow> Inl TypeError | Some text \<Rightarrow> parseResponse text)"

definition generateCode :: "home_state \<Rightarrow> gen_result \<Rightarrow> home_state" where
  "generateCode st res =
     (if imageBase64 st = [] \<and> urlInput st = [] then st
      else
        let st1 = st\<lparr>loading := True, output := None\<rparr>;
            st2 = (case res of
                     Rejected \<Rightarrow> st1\<lparr>showErrorModal := True\<rparr>
                   | Resolved responseText \<Rightarrow>
                       (case parseResponseOf responseText of
                          Inl e \<Rightarrow> st1\<lparr>showErrorModal := True\<rparr>
                        | Inr parsedOutput \<Rightarrow>
                            if files parsedOutput = [] then st1\<lparr>showErrorModal := True\<rparr>
                            else st1\<lparr>output := Some parsedOutput\<rparr>))
        in st2\<lparr>loading := False\<rparr>)"

definition previewInput :: "home_state \<Rightarrow> StructuredDocument option" where
  \<comment> \<open>the \<^verbatim>\<open>output\<close> prop of \<^verbatim>\<open>CodePreview\<close>, when the component is rendered (lines 565, 566)\<close>
  "previewInput st = (if loading st then None else output st)"

section \<open>Reading the patterns: first occurrences\<close>

text \<open>
  What the patterns of \<open>parseResponse\<close> find is stated with plain list functions:
  \<open>cut_at l s\<close> splits \<open>s\<close> at the first occurrence of \<open>l\<close>, into the text before it and
  the text after it; \<open>lstrip\<close> and \<open>rstrip\<close> drop white space at one end.
\<close>

fun cut_at :: "string \<Rightarrow> string \<Rightarrow> (string \<times> string) option" where
  "cut_at l [] = (if l = [] then Some ([], []) else None)"
| "cut_at l (x # xs) =
     (if prefix l (x # xs) then Some ([], drop (length l) (x # xs))
      else map_option (\<lambda>(a, b). (x # a, b)) (cut_at l xs))"

definition lstrip :: "string \<Rightarrow> string" where
  "lstrip s = dropWhile rx_space s"

definition rstrip :: "string \<Rightarrow> string" where
  "rstrip s = rev (dropWhile rx_space (rev s))"

fun find_suffix :: "(string \<Rightarrow> bool) \<Rightarrow> string \<Rightarrow> string option" where
  "find_suffix P [] = (if P [] then Some [] else None)"
| "find_suffix P (x # xs) = (if P (x # xs) then Some (x # xs) else find_suffix P xs)"

lemma rx_any_True [simp]: "rx_any c"
  by (simp add: rx_any_def)

lemma trim_strip: "trim s = rstrip (lstrip s)"
  by (simp add: trim_def lstrip_def rstrip_def)

lemma cut_at_Some: "cut_at l s = Some (a, b) \<Longrightarrow> s = a @ l @ b"
proof (induction s arbitrary: a)
  case Nil
  then show ?case by (auto split: if_splits)
next
  case (Cons x xs)
  show ?case
  proof (cases "prefix l (x # xs)")
    case True
    with Cons.prems show ?thesis by (auto simp: prefix_def)
  next
    case False
    with Cons.prems obtain a' where "cut_at l xs = Some (a', b)" "a = x # a'" by auto
    with Cons.IH show ?thesis by auto
  qed
qed

lemma cut_at_None_suffix: "cut_at l s = None \<Longrightarrow> suffix t s \<Longrightarrow> cut_at l t = None"
proof (induction s)
  case Nil
  then show ?case by simp
next
  case (Cons x xs)
  from Cons.prems(1) have xs: "cut_at l xs = None" by (auto split: if_splits)
  from Cons.prems(2) have "t = x # xs \<or> suffix t xs" by (auto simp: suffix_Cons)
  with Cons.IH[OF xs] Cons.prems(1) show ?case by auto
qed

lemma cut_at_skip:
  assumes "l \<noteq> []" "hd l \<notin> set w"
  shows "cut_at l (w @ s) = map_option (\<lambda>(a, b). (w @ a, b)) (cut_at l s)"
using assms(2) proof (induction w)
  case Nil
  show ?case by (simp add: option.map_ident)
next
  case (Cons x w)
  have "\<not> prefix l (x # w @ s)" using assms(1) Cons.prems by (cases l) auto
  with Cons show ?case by (auto simp: option.map_comp comp_def split_def)
qed

lemma cut_at_prefix_here: "prefix l s \<Longrightarrow> cut_at l s = Some ([], drop (length l) s)"
  by (cases s) auto

lemma star_g_some: "k (dropWhile p s) = Some r \<Longrightarrow> star_g p k s = Some r"
  by (induction s) auto

definition back_fail :: "(char \<Rightarrow> bool) \<Rightarrow> (string \<Rightarrow> 'a option) \<Rightarrow> bool" where
  "back_fail p k = (\<forall>c s. p c \<longrightarrow> k s = None \<longrightarrow> k (c # s) = None)"

lemma back_fail_dropWhile: "back_fail p k \<Longrightarrow> k (dropWhile p s) = None \<Longrightarrow> k s = None"
  by (induction s) (auto simp: back_fail_def split: if_splits)

lemma star_g_max: "back_fail p k \<Longrightarrow> star_g p k s = k (dropWhile p s)"
proof (induction s)
  case Nil
  then show ?case by simp
next
  case (Cons x xs)
  show ?case
  proof (cases "p x")
    case True
    show ?thesis
    proof (cases "k (dropWhile p xs)")
      case None
      with back_fail_dropWhile[OF Cons.prems] have "k xs = None" by blast
      with Cons.prems True have "k (x # xs) = None" by (auto simp: back_fail_def)
      with Cons True None show ?thesis by simp
    next
      case (Some a)
      with Cons True show ?thesis by simp
    qed
  next
    case False
    then show ?thesis by simp
  qed
qed

lemma star_g_guarded:
  assumes "back_fail p k" "length s \<le> n"
  shows "star_g p (\<lambda>t. if length t = n then None else k t) s
         = (if length (dropWhile p s) = n then None else k (dropWhile p s))"
using assms(2) proof (induction s)
  case Nil
  then show ?case by simp
next
  case (Cons x xs)
  show ?case
  proof (cases "p x")
    case True
    have len: "length (dropWhile p xs) \<noteq> n"
      using Cons.prems length_dropWhile_le[of p xs] by simp
    show ?thesis
    proof (cases "k (dropWhile p xs)")
      case None
      with back_fail_dropWhile[OF assms(1)] have "k xs = None" by blast
      with assms(1) True have "k (x # xs) = None" by (auto simp: back_fail_def)
      with Cons True None len show ?thesis by simp
    next
      case (Some a)
      with Cons True len show ?thesis by simp
    qed
  next
    case False
    then show ?thesis by simp
  qed
qed

lemma star_l_any: "star_l rx_any k s = (case find_suffix (\<lambda>t. k t \<noteq> None) s of None \<Rightarrow> None | Some t \<Rightarrow> k t)"
  by (induction s) (auto split: option.splits)

declare rmatch.simps [simp del]

lemma rmatch_Seq: "rmatch (Seq a b) k = rmatch a (rmatch b k)"
  by (simp add: rmatch.simps)

lemma rmatch_Star: "rmatch (Star p) k (s, c) = star_g p (\<lambda>s'. k (s', c)) s"
  by (simp add: rmatch.simps)

lemma rmatch_LazyStar: "rmatch (LazyStar p) k (s, c) = star_l p (\<lambda>s'. k (s', c)) s"
  by (simp add: rmatch.simps)

lemma rmatch_Grp:
  "rmatch (Grp i r) k (s, c)
   = rmatch r (\<lambda>(s', c'). k (s', c'(i := Some (take (length s - length s') s)))) (s, c)"
  by (simp add: rmatch.simps)

lemma lit_eq: "lit l s = (if prefix l s then Some (drop (length l) s) else None)"
  by (induction l s rule: lit.induct) auto

lemma rmatch_Lit: "rmatch (Lit l) k (s, c) = (if prefix l s then k (drop (length l) s, c) else None)"
  by (simp add: rmatch.simps lit_eq)

lemma lstrip_Cons: "lstrip (x # xs) = (if rx_space x then lstrip xs else x # xs)"
  by (simp add: lstrip_def)

lemma lstrip_Nil [simp]: "lstrip [] = []"
  by (simp add: lstrip_def)

lemma rstrip_Nil [simp]: "rstrip [] = []"
  by (simp add: rstrip_def)

lemma rstrip_Cons:
  "rstrip (x # xs) = (if rx_space x \<and> rstrip xs = [] then [] else x # rstrip xs)"
  by (auto simp: rstrip_def dropWhile_append)

lemma rstrip_Nil_iff: "rstrip s = [] \<longleftrightarrow> (\<forall>c \<in> set s. rx_space c)"
  by (auto simp: rstrip_def dropWhile_eq_Nil_conv)

lemma lstrip_all_space: "\<forall>c \<in> set w. rx_space c \<Longrightarrow> lstrip (w @ s) = lstrip s"
  by (induction w) (auto simp: lstrip_def)

lemma lstrip_idem [simp]: "lstrip (lstrip s) = lstrip s"
  by (induction s) (auto simp: lstrip_def)

lemma lstrip_split: "\<exists>w. s = w @ lstrip s \<and> (\<forall>c \<in> set w. rx_space c)"
  unfolding lstrip_def
  by (metis set_takeWhileD takeWhile_dropWhile_id)

lemma lstrip_no_space_head: "s \<noteq> [] \<Longrightarrow> \<not> rx_space (hd s) \<Longrightarrow> lstrip s = s"
  by (cases s) (auto simp: lstrip_def)

lemma ws_then_lit:
  assumes "M \<noteq> []" "\<not> rx_space (hd M)"
  shows "rmatch (Seq (Star rx_space) (Lit M)) k (s, c)
         = (if prefix M (lstrip s) then k (drop (length M) (lstrip s), c) else None)"
proof -
  let ?k = "\<lambda>s'. rmatch (Lit M) k (s', c)"
  have "back_fail rx_space ?k"
    using assms by (cases M) (auto simp: back_fail_def rmatch_Lit)
  have "rmatch (Seq (Star rx_space) (Lit M)) k (s, c) = star_g rx_space ?k s"
    by (simp add: rmatch_Seq rmatch_Star)
  also have "\<dots> = ?k (dropWhile rx_space s)"
    by (rule star_g_max[OF \<open>back_fail rx_space ?k\<close>])
  also have "\<dots> = (if prefix M (lstrip s) then k (drop (length M) (lstrip s), c) else None)"
    by (simp add: rmatch_Lit lstrip_def)
  finally show ?thesis .
qed

lemma find_suffix_prefix:
  assumes "M \<noteq> []"
  shows "find_suffix (prefix M) s
         = (case cut_at M s of None \<Rightarrow> None | Some (mid, rest) \<Rightarrow> Some (drop (length mid) s))"
  using assms by (induction s) (auto split: option.splits)

lemma ws_prefix_cut:
  assumes "M \<noteq> []" "\<not> rx_space (hd M)" "prefix M (lstrip s)"
  shows "\<exists>w. (\<forall>c \<in> set w. rx_space c) \<and> cut_at M s = Some (w, drop (length M) (lstrip s))"
proof -
  from lstrip_split obtain w where w: "s = w @ lstrip s" "\<forall>c \<in> set w. rx_space c" by blast
  from w(2) assms(2) have "hd M \<notin> set w" by auto
  from cut_at_skip[OF assms(1) this, of "lstrip s"] w(1) cut_at_prefix_here[OF assms(3)]
  have "cut_at M s = Some (w, drop (length M) (lstrip s))" by simp
  with w(2) show ?thesis by blast
qed

lemma find_suffix_ws_prefix:
  assumes "M \<noteq> []" "\<not> rx_space (hd M)"
  shows "find_suffix (\<lambda>t. prefix M (lstrip t)) s
         = (case cut_at M s of None \<Rightarrow> None
            | Some (mid, rest) \<Rightarrow> Some (drop (length (rstrip mid)) s))"
proof (induction s)
  case Nil
  from assms show ?case by simp
next
  case (Cons x xs)
  show ?case
  proof (cases "prefix M (lstrip (x # xs))")
    case True
    from ws_prefix_cut[OF assms True] obtain w where
      w: "\<forall>c \<in> set w. rx_space c" "cut_at M (x # xs) = Some (w, drop (length M) (lstrip (x # xs)))"
      by blast
    from w(1) have "rstrip w = []" by (simp add: rstrip_Nil_iff)
    with True w(2) show ?thesis by simp
  next
    case False
    have np: "\<not> prefix M (x # xs)"
    proof
      assume p: "prefix M (x # xs)"
      with assms have "\<not> rx_space x" by (cases M) auto
      then have "lstrip (x # xs) = x # xs" by (simp add: lstrip_Cons)
      with p False show False by simp
    qed
    show ?thesis
    proof (cases "cut_at M xs")
      case None
      with False np Cons show ?thesis by simp
    next
      case (Some a)
      obtain mid rest where a: "a = (mid, rest)" by (cases a)
      have "\<not> (rx_space x \<and> rstrip mid = [])"
      proof
        assume h: "rx_space x \<and> rstrip mid = []"
        from cut_at_Some Some a have xs: "xs = mid @ M @ rest" by blast
        from h have "\<forall>c \<in> set (x # mid). rx_space c" by (simp add: rstrip_Nil_iff)
        from lstrip_all_space[OF this, of "M @ rest"] xs
        have "lstrip (x # xs) = lstrip (M @ rest)" by simp
        also have "\<dots> = M @ rest" using assms by (intro lstrip_no_space_head) auto
        finally show False using False by simp
      qed
      then have "rstrip (x # mid) = x # rstrip mid" by (auto simp: rstrip_Cons)
      with False np Some a Cons show ?thesis by simp
    qed
  qed
qed

lemma find_suffix_or_end:
  "find_suffix (\<lambda>t. P t \<or> t = []) s
   = Some (case find_suffix P s of None \<Rightarrow> [] | Some t \<Rightarrow> t)"
  by (induction s) auto

lemma rstrip_prefix: "prefix (rstrip s) s"
  by (induction s) (auto simp: rstrip_Cons)

lemma take_rstrip: "take (length (rstrip mid)) (mid @ t) = rstrip mid"
proof -
  from rstrip_prefix[of mid] obtain z where z: "mid = rstrip mid @ z" by (auto simp: prefix_def)
  have "take (length (rstrip mid)) ((rstrip mid @ z) @ t) = rstrip mid" by simp
  with z show ?thesis by simp
qed

lemma rstrip_idem [simp]: "rstrip (rstrip s) = rstrip s"
  by (simp add: rstrip_def)

lemma lstrip_rstrip: "lstrip (rstrip s) = rstrip (lstrip s)"
proof (induction s)
  case Nil
  show ?case by simp
next
  case (Cons x xs)
  show ?case
  proof (cases "rx_space x")
    case True
    show ?thesis
    proof (cases "rstrip xs = []")
      case True
      then have "\<forall>c \<in> set xs. rx_space c" by (simp add: rstrip_Nil_iff)
      then have "lstrip xs = []" by (simp add: lstrip_def)
      with True \<open>rx_space x\<close> show ?thesis by (simp add: rstrip_Cons lstrip_Cons)
    next
      case False
      with True Cons show ?thesis by (simp add: rstrip_Cons lstrip_Cons)
    qed
  next
    case False
    then show ?thesis by (simp add: rstrip_Cons lstrip_Cons)
  qed
qed

lemma trim_idem [simp]: "trim (trim s) = trim s"
  by (simp add: trim_strip lstrip_rstrip)

lemma trim_lstrip [simp]: "trim (lstrip s) = trim s"
  by (simp add: trim_strip)

lemma trim_rstrip [simp]: "trim (rstrip s) = trim s"
  by (simp add: trim_strip lstrip_rstrip)

lemma rstrip_split: "\<exists>w. s = rstrip s @ w \<and> (\<forall>c \<in> set w. rx_space c)"
proof -
  have "rev s = takeWhile rx_space (rev s) @ dropWhile rx_space (rev s)" by simp
  then have "s = rev (dropWhile rx_space (rev s)) @ rev (takeWhile rx_space (rev s))"
    by (metis rev_append rev_rev_ident)
  moreover have "\<forall>c \<in> set (rev (takeWhile rx_space (rev s))). rx_space c"
    by (auto dest: set_takeWhileD)
  ultimately show ?thesis unfolding rstrip_def by blast
qed

lemma lazy_group:
  "rmatch (Grp i (LazyStar rx_any)) k (s, c)
   = (case find_suffix (\<lambda>t. k (t, c(i := Some (take (length s - length t) s))) \<noteq> None) s of
        None \<Rightarrow> None
      | Some t \<Rightarrow> k (t, c(i := Some (take (length s - length t) s))))"
  by (simp add: rmatch_Grp rmatch_LazyStar star_l_any)

lemma lazy_until_ws_lit:
  assumes "M \<noteq> []" "\<not> rx_space (hd M)"
  shows "rmatch (Grp i (LazyStar rx_any)) (rmatch (Seq (Star rx_space) (Lit M)) Some) (s, c)
         = (case cut_at M s of None \<Rightarrow> None
            | Some (mid, rest) \<Rightarrow> Some (rest, c(i := Some (rstrip mid))))"
proof -
  let ?k = "rmatch (Seq (Star rx_space) (Lit M)) Some"
  have k: "?k (t, c') = (if prefix M (lstrip t) then Some (drop (length M) (lstrip t), c') else None)"
    for t c'
    by (rule ws_then_lit[OF assms])
  have P: "(\<lambda>t. ?k (t, c(i := Some (take (length s - length t) s))) \<noteq> None)
           = (\<lambda>t. prefix M (lstrip t))"
    by (rule ext) (simp only: k, simp)
  show ?thesis
  proof (cases "cut_at M s")
    case None
    then show ?thesis
      unfolding lazy_group P find_suffix_ws_prefix[OF assms] by simp
  next
    case (Some a)
    obtain mid rest where a: "a = (mid, rest)" by (cases a)
    from cut_at_Some Some a have s: "s = mid @ M @ rest" by blast
    from rstrip_split obtain w where w: "mid = rstrip mid @ w" "\<forall>c \<in> set w. rx_space c" by blast
    let ?t = "drop (length (rstrip mid)) s"
    have t: "?t = w @ M @ rest"
    proof -
      have "drop (length (rstrip mid)) ((rstrip mid @ w) @ M @ rest) = w @ M @ rest" by simp
      with w(1) s show ?thesis by simp
    qed
    have "lstrip ?t = lstrip (M @ rest)" unfolding t by (rule lstrip_all_space[OF w(2)])
    also have "\<dots> = M @ rest" using assms by (intro lstrip_no_space_head) auto
    finally have ls: "lstrip ?t = M @ rest" .
    have "length (rstrip mid) \<le> length mid"
      using rstrip_prefix by (rule prefix_length_le)
    then have len: "length s - (length s - length (rstrip mid)) = length (rstrip mid)"
      using s by simp
    have tk: "take (length (rstrip mid)) s = rstrip mid"
      unfolding s by (rule take_rstrip)
    show ?thesis
      unfolding lazy_group P find_suffix_ws_prefix[OF assms] Some a
      by (simp add: k ls len tk)
  qed
qed

lemma cut_at_space_Cons:
  assumes "M \<noteq> []" "\<not> rx_space (hd M)" "rx_space x"
  shows "cut_at M (x # s) = map_option (\<lambda>(a, b). (x # a, b)) (cut_at M s)"
  using assms by (cases M) auto

lemma cut_at_lstrip:
  assumes "M \<noteq> []" "\<not> rx_space (hd M)"
  shows "cut_at M (lstrip s) = map_option (\<lambda>(a, b). (lstrip a, b)) (cut_at M s)"
proof (induction s)
  case Nil
  show ?case using assms by simp
next
  case (Cons x xs)
  show ?case
  proof (cases "rx_space x")
    case True
    with Cons cut_at_space_Cons[OF assms True] show ?thesis
      by (simp add: lstrip_Cons option.map_comp comp_def split_def)
  next
    case False
    then show ?thesis
      by (auto simp: lstrip_Cons option.map_comp comp_def split_def intro!: option.map_cong)
  qed
qed

lemma section_tail:
  assumes "M \<noteq> []" "\<not> rx_space (hd M)"
  shows "rmatch (seqs [Star rx_space, Grp i (LazyStar rx_any), Star rx_space, Lit M]) Some (r, c)
         = (case cut_at M r of None \<Rightarrow> None
            | Some (mid, rest) \<Rightarrow> Some (rest, c(i := Some (trim mid))))"
proof -
  let ?K = "\<lambda>s. rmatch (Grp i (LazyStar rx_any)) (rmatch (Seq (Star rx_space) (Lit M)) Some) (s, c)"
  have K: "?K s = (case cut_at M s of None \<Rightarrow> None
            | Some (mid, rest) \<Rightarrow> Some (rest, c(i := Some (rstrip mid))))" for s
    by (rule lazy_until_ws_lit[OF assms])
  have bf: "back_fail rx_space ?K"
    unfolding back_fail_def
  proof (intro allI impI)
    fix x s
    assume x: "rx_space x" and "?K s = None"
    then have "cut_at M s = None" by (simp add: K split: option.splits prod.splits)
    then have "map_option (\<lambda>(a, b). (x # a, b)) (cut_at M s) = None" by simp
    then have "cut_at M (x # s) = None" by (simp only: cut_at_space_Cons[OF assms x])
    then show "?K (x # s) = None" by (simp only: K option.case)
  qed
  have "rmatch (seqs [Star rx_space, Grp i (LazyStar rx_any), Star rx_space, Lit M]) Some (r, c)
        = star_g rx_space ?K r"
    by (simp add: rmatch_Seq rmatch_Star)
  also have "\<dots> = ?K (lstrip r)"
    unfolding lstrip_def by (rule star_g_max[OF bf])
  also have "\<dots> = (case cut_at M r of None \<Rightarrow> None
            | Some (mid, rest) \<Rightarrow> Some (rest, c(i := Some (trim mid))))"
    unfolding K cut_at_lstrip[OF assms] by (auto simp: trim_strip split: option.splits)
  finally show ?thesis .
qed

lemma match_here_lit_head:
  "match_here (Seq (Lit l) X) s =
     (if prefix l s then
        (case rmatch X Some (drop (length l) s, no_captures) of None \<Rightarrow> None
         | Some (s', c) \<Rightarrow>
             Some \<lparr>preceding = [], matched = take (length s - length s') s, groups = c,
                   following = s'\<rparr>)
      else None)"
  by (simp add: match_here_def rmatch_Seq rmatch_Lit)

lemma rx_exec_lit_head:
  assumes fail_mono: "\<And>r r'. suffix r' r \<Longrightarrow> rmatch X Some (r, no_captures) = None
                   \<Longrightarrow> rmatch X Some (r', no_captures) = None"
  shows "rx_exec (Seq (Lit l) X) inp =
     (case cut_at l inp of None \<Rightarrow> None
      | Some (a, r) \<Rightarrow>
          (case rmatch X Some (r, no_captures) of None \<Rightarrow> None
           | Some (s', c) \<Rightarrow>
               Some \<lparr>preceding = a,
                     matched = take (length inp - length a - length s') (drop (length a) inp),
                     groups = c, following = s'\<rparr>))"
proof (induction inp)
  case Nil
  show ?case by (auto simp: match_here_lit_head split: option.splits)
next
  case (Cons x xs)
  show ?case
  proof (cases "prefix l (x # xs)")
    case True
    let ?r = "drop (length l) (x # xs)"
    show ?thesis
    proof (cases "rmatch X Some (?r, no_captures)")
      case None
      have "rx_exec (Seq (Lit l) X) xs = None"
      proof (cases "cut_at l xs")
        case None
        with Cons show ?thesis by simp
      next
        case (Some p)
        obtain a' r' where p: "p = (a', r')" by (cases p)
        from cut_at_Some Some p have xs: "xs = a' @ l @ r'" by blast
        then have "suffix r' (x # xs)" by (auto simp: suffix_def intro: exI[of _ "x # a' @ l"])
        moreover have "suffix ?r (x # xs)" by (rule suffix_drop)
        moreover have "length r' \<le> length ?r" using xs by simp
        ultimately have "suffix r' ?r" by (rule suffix_length_suffix)
        from fail_mono[OF this None] Some p Cons show ?thesis by simp
      qed
      with True None show ?thesis by (simp add: match_here_lit_head)
    next
      case (Some a)
      with True show ?thesis by (auto simp: match_here_lit_head split: prod.splits)
    qed
  next
    case False
    then have mh: "match_here (Seq (Lit l) X) (x # xs) = None"
      by (simp add: match_here_lit_head)
    show ?thesis
    proof (cases "cut_at l xs")
      case None
      with False mh Cons show ?thesis by simp
    next
      case (Some p)
      obtain a' r' where p: "p = (a', r')" by (cases p)
      with False mh Cons Some show ?thesis by (auto split: option.splits)
    qed
  qed
qed

definition between :: "string \<Rightarrow> string \<Rightarrow> string \<Rightarrow> string option" where
  "between m1 m2 inp =
     (case cut_at m1 inp of None \<Rightarrow> None
      | Some (_, r) \<Rightarrow> (case cut_at m2 r of None \<Rightarrow> None | Some (mid, _) \<Rightarrow> Some mid))"

lemma marker_section:
  assumes "M \<noteq> []" "\<not> rx_space (hd M)"
  shows "section_text (seqs [Lit L, Star rx_space, Grp 1 (LazyStar rx_any), Star rx_space, Lit M]) inp
         = Inr (case between L M inp of None \<Rightarrow> [] | Some mid \<Rightarrow> trim mid)"
proof -
  let ?X = "seqs [Star rx_space, Grp 1 (LazyStar rx_any), Star rx_space, Lit M]"
  have X: "rmatch ?X Some (r, c) = (case cut_at M r of None \<Rightarrow> None
            | Some (mid, rest) \<Rightarrow> Some (rest, c(1 := Some (trim mid))))" for r c
    by (rule section_tail[OF assms])
  have fm: "rmatch ?X Some (r', no_captures) = None"
    if "suffix r' r" "rmatch ?X Some (r, no_captures) = None" for r r'
  proof -
    from that(2) have "cut_at M r = None"
      unfolding X by (simp split: option.splits prod.splits)
    from cut_at_None_suffix[OF this that(1)] show ?thesis
      unfolding X by simp
  qed
  have ex: "rx_exec (Seq (Lit L) ?X) inp =
     (case cut_at L inp of None \<Rightarrow> None
      | Some (a, r) \<Rightarrow>
          (case cut_at M r of None \<Rightarrow> None
           | Some (mid, rest) \<Rightarrow>
               Some \<lparr>preceding = a,
                     matched = take (length inp - length a - length rest) (drop (length a) inp),
                     groups = no_captures(1 := Some (trim mid)), following = rest\<rparr>))"
    by (subst rx_exec_lit_head[of ?X, OF fm], assumption, unfold X)
       (auto split: option.splits)
  have sq: "seqs [Lit L, Star rx_space, Grp 1 (LazyStar rx_any), Star rx_space, Lit M]
            = Seq (Lit L) ?X"
    by (simp only: seqs.simps)
  show ?thesis
    unfolding section_text_def sq ex
    by (simp add: between_def group_trim_def split: option.splits)
qed

lemma header_section:
  "section_text headerRegex inp
   = Inr (case between ''### 4.1. Header Block'' ''### 4.2. Project Structure'' inp of
            None \<Rightarrow> [] | Some mid \<Rightarrow> trim mid)"
  unfolding headerRegex_def by (rule marker_section) (simp_all add: rx_space_def)

lemma structure_section:
  "section_text structureRegex inp
   = Inr (case between ''### 4.2. Project Structure'' ''### 4.3. Code Files'' inp of
            None \<Rightarrow> [] | Some mid \<Rightarrow> trim mid)"
  unfolding structureRegex_def by (rule marker_section) (simp_all add: rx_space_def)

lemma rmatch_Alt:
  "rmatch (Alt a b) k st = (case rmatch a k st of Some x \<Rightarrow> Some x | None \<Rightarrow> rmatch b k st)"
  by (simp add: rmatch.simps)

lemma rmatch_Ahead:
  "rmatch (Ahead r) k (s, c)
   = (case rmatch r Some (s, c) of None \<Rightarrow> None | Some (s', c') \<Rightarrow> k (s, c'))"
  by (simp add: rmatch.simps)

lemma rmatch_Eos: "rmatch Eos k (s, c) = (if s = [] then k (s, c) else None)"
  by (simp add: rmatch.simps)

lemma dropWhile_any [simp]: "dropWhile rx_any s = []"
  by (induction s) auto

lemma star_g_any_all: "star_g rx_any (\<lambda>s'. Some (f s')) s = Some (f [])"
  by (rule star_g_some) simp

lemma notes_tail:
  "rmatch (seqs [Star rx_space, Grp i (Star rx_any)]) Some (r, c)
   = Some ([], c(i := Some (lstrip r)))"
proof -
  have G: "rmatch (Grp i (Star rx_any)) Some (s, c) = Some ([], c(i := Some s))" for s
    by (simp add: rmatch_Grp rmatch_Star star_g_any_all)
  have "rmatch (seqs [Star rx_space, Grp i (Star rx_any)]) Some (r, c)
        = star_g rx_space (\<lambda>s'. rmatch (Grp i (Star rx_any)) Some (s', c)) r"
    by (simp add: rmatch_Seq rmatch_Star)
  also have "\<dots> = Some ([], c(i := Some (lstrip r)))"
    by (rule star_g_some) (simp add: G lstrip_def)
  finally show ?thesis .
qed

lemma notes_exec:
  "rx_exec notesRegex inp =
     (case cut_at ''### 4.4. Notes'' inp of None \<Rightarrow> None
      | Some (a, r) \<Rightarrow>
          Some \<lparr>preceding = a, matched = drop (length a) inp,
                groups = no_captures(1 := Some (lstrip r)), following = []\<rparr>)"
proof -
  let ?X = "seqs [Star rx_space, Grp 1 (Star rx_any)]"
  have sq: "notesRegex = Seq (Lit ''### 4.4. Notes'') ?X"
    unfolding notesRegex_def by (simp only: seqs.simps)
  have fm: "rmatch ?X Some (r', no_captures) = None"
    if "suffix r' r" "rmatch ?X Some (r, no_captures) = None" for r r'
    using that(2) unfolding notes_tail by simp
  show ?thesis
    unfolding sq
    by (subst rx_exec_lit_head[of ?X, OF fm], assumption, unfold notes_tail)
       (auto split: option.splits)
qed

lemma notes_section:
  "section_text notesRegex inp
   = Inr (case cut_at ''### 4.4. Notes'' inp of None \<Rightarrow> [] | Some (a, r) \<Rightarrow> trim r)"
  unfolding section_text_def notes_exec
  by (simp add: group_trim_def split: option.splits)

lemma ahead_notes_or_end:
  assumes "M \<noteq> []" "\<not> rx_space (hd M)"
  shows "rmatch (Ahead (Alt (Seq (Star rx_space) (Lit M)) Eos)) Some (s, c)
         = (if prefix M (lstrip s) \<or> s = [] then Some (s, c) else None)"
  by (simp add: rmatch_Ahead rmatch_Alt rmatch_Eos ws_then_lit[OF assms])

lemma files_tail:
  assumes "M \<noteq> []" "\<not> rx_space (hd M)"
  shows "\<exists>t. rmatch (seqs [Star rx_space, Grp i (LazyStar rx_any),
                  Ahead (Alt (Seq (Star rx_space) (Lit M)) Eos)]) Some (r, c)
         = Some (t, c(i := Some (case cut_at M r of None \<Rightarrow> lstrip r
                                 | Some (mid, rest) \<Rightarrow> trim mid)))"
proof -
  let ?A = "rmatch (Ahead (Alt (Seq (Star rx_space) (Lit M)) Eos)) Some"
  let ?K = "\<lambda>s. rmatch (Grp i (LazyStar rx_any)) ?A (s, c)"
  have A: "?A (t, c') = (if prefix M (lstrip t) \<or> t = [] then Some (t, c') else None)" for t c'
    by (rule ahead_notes_or_end[OF assms])
  have K: "\<exists>t. ?K s = Some (t, c(i := Some (case cut_at M s of None \<Rightarrow> s
                           | Some (mid, rest) \<Rightarrow> rstrip mid)))" for s
  proof -
    have P: "(\<lambda>t. ?A (t, c(i := Some (take (length s - length t) s))) \<noteq> None)
             = (\<lambda>t. prefix M (lstrip t) \<or> t = [])"
      by (rule ext) (simp only: A, simp)
    show ?thesis
    proof (cases "cut_at M s")
      case None
      then show ?thesis
        unfolding lazy_group P find_suffix_or_end find_suffix_ws_prefix[OF assms]
        by (simp add: A)
    next
      case (Some a)
      obtain mid rest where a: "a = (mid, rest)" by (cases a)
      from cut_at_Some Some a have s: "s = mid @ M @ rest" by blast
      have "length (rstrip mid) \<le> length mid"
        using rstrip_prefix by (rule prefix_length_le)
      then have len: "length s - (length s - length (rstrip mid)) = length (rstrip mid)"
        using s by simp
      have tk: "take (length (rstrip mid)) s = rstrip mid"
        unfolding s by (rule take_rstrip)
      from rstrip_split obtain w where w: "mid = rstrip mid @ w" "\<forall>c \<in> set w. rx_space c"
        by blast
      let ?t = "drop (length (rstrip mid)) s"
      have t: "?t = w @ M @ rest"
      proof -
        have "drop (length (rstrip mid)) ((rstrip mid @ w) @ M @ rest) = w @ M @ rest" by simp
        with w(1) s show ?thesis by simp
      qed
      have "lstrip ?t = lstrip (M @ rest)" unfolding t by (rule lstrip_all_space[OF w(2)])
      also have "\<dots> = M @ rest" using assms by (intro lstrip_no_space_head) auto
      finally have ls: "prefix M (lstrip ?t)" by simp
      show ?thesis
        unfolding lazy_group P find_suffix_or_end find_suffix_ws_prefix[OF assms] Some a
        by (simp add: A ls len tk)
    qed
  qed
  from K[of "lstrip r"] obtain t where
    t: "?K (lstrip r) = Some (t, c(i := Some (case cut_at M (lstrip r) of None \<Rightarrow> lstrip r
                           | Some (mid, rest) \<Rightarrow> rstrip mid)))" by blast
  have "rmatch (seqs [Star rx_space, Grp i (LazyStar rx_any),
                  Ahead (Alt (Seq (Star rx_space) (Lit M)) Eos)]) Some (r, c)
        = star_g rx_space ?K r"
    by (simp add: rmatch_Seq rmatch_Star)
  also have "\<dots> = Some (t, c(i := Some (case cut_at M (lstrip r) of None \<Rightarrow> lstrip r
                           | Some (mid, rest) \<Rightarrow> rstrip mid)))"
    by (rule star_g_some) (simp only: t lstrip_def[symmetric])
  also have "(case cut_at M (lstrip r) of None \<Rightarrow> lstrip r | Some (mid, rest) \<Rightarrow> rstrip mid)
             = (case cut_at M r of None \<Rightarrow> lstrip r | Some (mid, rest) \<Rightarrow> trim mid)"
    unfolding cut_at_lstrip[OF assms] by (auto simp: trim_strip split: option.splits)
  finally show ?thesis by blast
qed

lemma rmatch_Opt:
  "rmatch (Opt r) k (s, c)
   = (case rmatch r (\<lambda>(s', c'). if length s' = length s then None else k (s', c')) (s, c) of
        Some x \<Rightarrow> Some x
      | None \<Rightarrow> k (s, c))"
  by (simp add: rmatch.simps)

lemma rmatch_Cls:
  "rmatch (Cls p) k (s, c) = (case s of [] \<Rightarrow> None | x # xs \<Rightarrow> if p x then k (xs, c) else None)"
  by (simp add: rmatch.simps)

lemma rmatch_Plus:
  "rmatch (Plus p) k (s, c)
   = (case s of [] \<Rightarrow> None | x # xs \<Rightarrow> if p x then star_g p (\<lambda>s'. k (s', c)) xs else None)"
  by (simp add: rmatch.simps)

lemma lazy_until_lit:
  assumes "M \<noteq> []"
  shows "rmatch (Grp i (LazyStar rx_any)) (rmatch (Lit M) Some) (s, c)
         = (case cut_at M s of None \<Rightarrow> None
            | Some (mid, rest) \<Rightarrow> Some (rest, c(i := Some mid)))"
proof -
  have P: "(\<lambda>t. rmatch (Lit M) Some (t, c(i := Some (take (length s - length t) s))) \<noteq> None)
           = prefix M"
    by (rule ext) (simp add: rmatch_Lit)
  show ?thesis
  proof (cases "cut_at M s")
    case None
    then show ?thesis
      unfolding lazy_group P find_suffix_prefix[OF assms] by simp
  next
    case (Some a)
    obtain mid rest where a: "a = (mid, rest)" by (cases a)
    from cut_at_Some Some a have s: "s = mid @ M @ rest" by blast
    show ?thesis
      unfolding lazy_group P find_suffix_prefix[OF assms] Some a
      by (simp add: rmatch_Lit s)
  qed
qed

lemma dropWhile_same_length:
  assumes "length (dropWhile p s) = length s"
  shows "dropWhile p s = s"
proof (cases s)
  case Nil
  then show ?thesis by simp
next
  case (Cons x xs)
  have "\<not> p x"
  proof
    assume "p x"
    with Cons assms have "length (dropWhile p xs) = Suc (length xs)" by simp
    with length_dropWhile_le[of p xs] show False by simp
  qed
  with Cons show ?thesis by simp
qed

lemma opt_star:
  assumes "back_fail p (\<lambda>s'. k (s', c))"
  shows "rmatch (Opt (Star p)) k (s, c) = k (dropWhile p s, c)"
proof -
  let ?k = "\<lambda>s'. k (s', c)"
  have g: "rmatch (Star p) (\<lambda>(s', c'). if length s' = length s then None else k (s', c')) (s, c)
        = (if length (dropWhile p s) = length s then None else ?k (dropWhile p s))"
    using star_g_guarded[OF assms, of s "length s"] by (simp add: rmatch_Star)
  show ?thesis
  proof (cases "length (dropWhile p s) = length s")
    case True
    then show ?thesis unfolding rmatch_Opt g by (simp add: dropWhile_same_length)
  next
    case False
    show ?thesis
    proof (cases "?k (dropWhile p s)")
      case None
      with back_fail_dropWhile[OF assms] have "?k s = None" by blast
      with None False show ?thesis unfolding rmatch_Opt g by simp
    next
      case (Some a)
      with False show ?thesis unfolding rmatch_Opt g by simp
    qed
  qed
qed

lemma cut_at_other_Cons:
  assumes "M \<noteq> []" "x \<noteq> hd M"
  shows "cut_at M (x # s) = map_option (\<lambda>(a, b). (x # a, b)) (cut_at M s)"
  using assms by (cases M) auto

lemma cut_at_dropWhile:
  assumes "M \<noteq> []" "\<not> p (hd M)"
  shows "cut_at M (dropWhile p s) = map_option (\<lambda>(a, b). (dropWhile p a, b)) (cut_at M s)"
proof (induction s)
  case Nil
  show ?case using assms by simp
next
  case (Cons x xs)
  show ?case
  proof (cases "p x")
    case True
    with assms have "x \<noteq> hd M" by auto
    from cut_at_other_Cons[OF assms(1) this] True Cons show ?thesis
      by (simp add: option.map_comp comp_def split_def)
  next
    case False
    then show ?thesis
      by (auto simp: option.map_comp comp_def split_def intro!: option.map_cong)
  qed
qed

definition fence :: string where
  "fence = ''```''"

lemma fence_props: "fence \<noteq> []" "\<not> rx_space (hd fence)" "\<not> rx_word (hd fence)"
  by (simp_all add: fence_def rx_space_def rx_word_def)

lemma fallback_tail:
  "rmatch (seqs [Opt (Star rx_word), Star rx_space, Grp i (LazyStar rx_any), Lit fence]) Some (r, c)
   = (case cut_at fence (lstrip (dropWhile rx_word r)) of None \<Rightarrow> None
      | Some (mid, rest) \<Rightarrow> Some (rest, c(i := Some mid)))"
proof -
  let ?K3 = "\<lambda>s. rmatch (Grp i (LazyStar rx_any)) (rmatch (Lit fence) Some) (s, c)"
  let ?K2 = "\<lambda>s. rmatch (Seq (Star rx_space) (Seq (Grp i (LazyStar rx_any)) (Lit fence))) Some (s, c)"
  have K3: "?K3 s = (case cut_at fence s of None \<Rightarrow> None
            | Some (mid, rest) \<Rightarrow> Some (rest, c(i := Some mid)))" for s
    by (rule lazy_until_lit[OF fence_props(1)])
  have K3_None: "?K3 s = None \<longleftrightarrow> cut_at fence s = None" for s
    unfolding K3 by (simp split: option.splits prod.splits)
  have bf3: "back_fail rx_space ?K3"
    unfolding back_fail_def
  proof (intro allI impI)
    fix x s
    assume x: "rx_space x" and "?K3 s = None"
    then have "cut_at fence s = None" by (simp only: K3_None)
    then have "map_option (\<lambda>(a, b). (x # a, b)) (cut_at fence s) = None" by simp
    then have "cut_at fence (x # s) = None"
      by (simp only: cut_at_space_Cons[OF fence_props(1,2) x])
    then show "?K3 (x # s) = None" by (simp only: K3_None)
  qed
  have K2: "?K2 s = ?K3 (lstrip s)" for s
  proof -
    have "?K2 s = star_g rx_space ?K3 s" by (simp add: rmatch_Seq rmatch_Star)
    also have "\<dots> = ?K3 (lstrip s)" unfolding lstrip_def by (rule star_g_max[OF bf3])
    finally show ?thesis .
  qed
  have K2_None: "?K2 s = None \<longleftrightarrow> cut_at fence s = None" for s
    unfolding K2 K3_None cut_at_lstrip[OF fence_props(1,2)] by simp
  have bf2: "back_fail rx_word ?K2"
    unfolding back_fail_def
  proof (intro allI impI)
    fix x s
    assume x: "rx_word x" and "?K2 s = None"
    then have "cut_at fence s = None" by (simp only: K2_None)
    then have "map_option (\<lambda>(a, b). (x # a, b)) (cut_at fence s) = None" by simp
    moreover from x fence_props(3) have ne: "x \<noteq> hd fence" by auto
    ultimately have "cut_at fence (x # s) = None"
      by (simp only: cut_at_other_Cons[OF fence_props(1) ne])
    then show "?K2 (x # s) = None" by (simp only: K2_None)
  qed
  have "rmatch (seqs [Opt (Star rx_word), Star rx_space, Grp i (LazyStar rx_any), Lit fence]) Some (r, c)
        = rmatch (Opt (Star rx_word))
            (rmatch (Seq (Star rx_space) (Seq (Grp i (LazyStar rx_any)) (Lit fence))) Some) (r, c)"
    by (simp add: rmatch_Seq)
  also have "\<dots> = ?K2 (dropWhile rx_word r)"
    by (rule opt_star[OF bf2])
  also have "\<dots> = ?K3 (lstrip (dropWhile rx_word r))" by (rule K2)
  finally show ?thesis unfolding K3 .
qed

text \<open>
  What the fallback pattern captures: the text after the first fence and the word
  characters that directly follow it, up to the next fence. A colon and a name on the tag
  line are part of it.
\<close>

definition first_fence_capture :: "string \<Rightarrow> string option" where
  "first_fence_capture inp =
     (case cut_at fence inp of None \<Rightarrow> None
      | Some (_, r) \<Rightarrow>
          (case cut_at fence (dropWhile rx_word r) of None \<Rightarrow> None
           | Some (cap, _) \<Rightarrow> Some cap))"

lemma fallback_exec:
  "rx_exec fallbackRegex inp =
     (case cut_at fence inp of None \<Rightarrow> None
      | Some (a, r) \<Rightarrow>
          (case cut_at fence (lstrip (dropWhile rx_word r)) of None \<Rightarrow> None
           | Some (mid, rest) \<Rightarrow>
               Some \<lparr>preceding = a,
                     matched = take (length inp - length a - length rest) (drop (length a) inp),
                     groups = no_captures(1 := Some mid), following = rest\<rparr>))"
proof -
  let ?X = "seqs [Opt (Star rx_word), Star rx_space, Grp 1 (LazyStar rx_any), Lit fence]"
  have sq: "fallbackRegex = Seq (Lit fence) ?X"
    unfolding fallbackRegex_def fence_def by (simp only: seqs.simps)
  have X_None: "rmatch ?X Some (r, no_captures) = None \<longleftrightarrow> cut_at fence r = None" for r
    unfolding fallback_tail cut_at_lstrip[OF fence_props(1,2)]
      cut_at_dropWhile[of fence rx_word, OF fence_props(1,3)]
    by (simp split: option.splits prod.splits)
  have fm: "rmatch ?X Some (r', no_captures) = None"
    if "suffix r' r" "rmatch ?X Some (r, no_captures) = None" for r r'
    using that cut_at_None_suffix unfolding X_None by blast
  show ?thesis
    unfolding sq
    by (subst rx_exec_lit_head[of ?X, OF fm], assumption, unfold fallback_tail)
       (auto split: option.splits)
qed

lemma fallbackFiles_eq:
  "fallbackFiles inp =
     Inr (case first_fence_capture inp of None \<Rightarrow> []
          | Some cap \<Rightarrow> [\<lparr>name = ''code.js'', lang = ''javascript'', content = trim cap\<rparr>])"
  unfolding fallbackFiles_def fallback_exec first_fence_capture_def
    cut_at_lstrip[OF fence_props(1,2)]
  by (auto simp: bind_r_def group_trim_def split: option.splits)

definition files_region :: "string \<Rightarrow> string option" where
  "files_region inp =
     (case cut_at ''### 4.3. Code Files (Full & Unabridged)'' inp of None \<Rightarrow> None
      | Some (_, r) \<Rightarrow>
          Some (case cut_at ''### 4.4. Notes'' r of None \<Rightarrow> lstrip r
                | Some (mid, _) \<Rightarrow> trim mid))"

lemma files_exec:
  "map_option (\<lambda>m. groups m 1) (rx_exec filesSectionRegex inp)
   = map_option Some (files_region inp)"
proof -
  let ?M = "''### 4.4. Notes''"
  let ?X = "seqs [Star rx_space, Grp 1 (LazyStar rx_any),
                  Ahead (Alt (Seq (Star rx_space) (Lit ?M)) Eos)]"
  have sq: "filesSectionRegex = Seq (Lit ''### 4.3. Code Files (Full & Unabridged)'') ?X"
    unfolding filesSectionRegex_def by (simp only: seqs.simps)
  have M: "?M \<noteq> []" "\<not> rx_space (hd ?M)" by (simp_all add: rx_space_def)
  have X: "\<exists>t. rmatch ?X Some (r, no_captures)
         = Some (t, no_captures(1 := Some (case cut_at ?M r of None \<Rightarrow> lstrip r
                                 | Some (mid, rest) \<Rightarrow> trim mid)))" for r
    by (rule files_tail[OF M])
  have fm: "rmatch ?X Some (r', no_captures) = None"
    if "suffix r' r" "rmatch ?X Some (r, no_captures) = None" for r r'
    using that(2) X[of r] by auto
  have ex: "rx_exec (Seq (Lit ''### 4.3. Code Files (Full & Unabridged)'') ?X) inp =
     (case cut_at ''### 4.3. Code Files (Full & Unabridged)'' inp of None \<Rightarrow> None
      | Some (a, r) \<Rightarrow>
          (case rmatch ?X Some (r, no_captures) of None \<Rightarrow> None
           | Some (s', c) \<Rightarrow>
               Some \<lparr>preceding = a,
                     matched = take (length inp - length a - length s') (drop (length a) inp),
                     groups = c, following = s'\<rparr>))"
    by (rule rx_exec_lit_head, rule fm)
  show ?thesis
  proof (cases "cut_at ''### 4.3. Code Files (Full & Unabridged)'' inp")
    case None
    then show ?thesis
      unfolding sq files_region_def ex by simp
  next
    case (Some p)
    obtain a r where p: "p = (a, r)" by (cases p)
    from X[of r] obtain t where
      t: "rmatch ?X Some (r, no_captures)
         = Some (t, no_captures(1 := Some (case cut_at ?M r of None \<Rightarrow> lstrip r
                                 | Some (mid, rest) \<Rightarrow> trim mid)))" by blast
    show ?thesis
      unfolding sq files_region_def ex Some p option.case prod.case t by simp
  qed
qed

lemma rx_exec_rmatch:
  "rx_exec r s = Some m \<Longrightarrow>
   \<exists>t s' c. rmatch r Some (t, no_captures) = Some (s', c) \<and> groups m = c \<and> following m = s'"
proof (induction s arbitrary: m)
  case Nil
  then show ?case by (auto simp: match_here_def split: option.splits)
next
  case (Cons x xs)
  show ?case
  proof (cases "match_here r (x # xs)")
    case None
    with Cons.prems obtain m' where m': "rx_exec r xs = Some m'" "m = m'\<lparr>preceding := x # preceding m'\<rparr>"
      by auto
    from Cons.IH[OF m'(1)] m'(2) show ?thesis by simp
  next
    case (Some a)
    with Cons.prems show ?thesis by (auto simp: match_here_def split: option.splits)
  qed
qed

lemma rmatch_Seq_reach: "rmatch (Seq a b) k st = Some res \<Longrightarrow> \<exists>st'. rmatch b k st' = Some res"
proof -
  assume "rmatch (Seq a b) k st = Some res"
  then have "rmatch a (rmatch b k) (fst st, snd st) = Some res" by (simp add: rmatch_Seq)
  from rmatch_suffix[OF this] show ?thesis by auto
qed

lemma codeBlock_group3:
  assumes "rx_exec codeBlockRegex s = Some m"
  shows "groups m 3 \<noteq> None"
proof -
  from rx_exec_rmatch[OF assms] obtain t s' c where
    r: "rmatch codeBlockRegex Some (t, no_captures) = Some (s', c)" and c: "groups m = c"
    by blast
  let ?tail = "Seq (Grp 3 (LazyStar rx_any)) (Lit ''\<newline>```'')"
  from r have "rmatch (Seq (Lit ''```'') (Seq (Grp 1 (Star rx_word)) (Seq (Opt (Lit '':''))
      (Seq (Opt (Grp 2 (Plus rx_name))) (Seq (Lit ''\<newline>'') ?tail))))) Some (t, no_captures)
      = Some (s', c)"
    unfolding codeBlockRegex_def by (simp only: seqs.simps)
  then obtain st5 where "rmatch ?tail Some st5 = Some (s', c)"
    by (blast dest: rmatch_Seq_reach)
  then have "rmatch (Grp 3 (LazyStar rx_any)) (rmatch (Lit ''\<newline>```'') Some) (fst st5, snd st5)
             = Some (s', c)"
    by (simp add: rmatch_Seq)
  then have "c 3 \<noteq> None"
    by (subst (asm) lazy_until_lit) (auto split: option.splits)
  with c show ?thesis by simp
qed

lemma codeBlocks_Inr: "\<exists>fs. codeBlocks s = Inr fs"
proof (induction s rule: codeBlocks.induct)
  case (1 s)
  show ?case
  proof (cases "rx_exec codeBlockRegex s")
    case None
    then show ?thesis by (simp add: codeBlocks.simps)
  next
    case (Some m)
    from codeBlock_group3[OF Some] obtain body where b: "groups m 3 = Some body" by auto
    from "1.IH"[OF Some] obtain fs where "codeBlocks (following m) = Inr fs" by blast
    with Some b show ?thesis
      by (subst codeBlocks.simps) (simp add: bind_r_def group_trim_def)
  qed
qed

section \<open>Claims\<close>

subsection \<open>C1: the worked example of the specification\<close>

definition scenarioA :: string where
  "scenarioA = ''### 4.1. Header Block\<newline>Hi\<newline>### 4.2. Project Structure\<newline>Tree\<newline>### 4.3. Code Files\<newline>```html:index.html\<newline><h1>Hi</h1>\<newline>```\<newline>### 4.4. Notes\<newline>Done''"

definition scenarioA_full :: string where
  "scenarioA_full = ''### 4.1. Header Block\<newline>Hi\<newline>### 4.2. Project Structure\<newline>Tree\<newline>### 4.3. Code Files (Full & Unabridged)\<newline>```html:index.html\<newline><h1>Hi</h1>\<newline>```\<newline>### 4.4. Notes\<newline>Done''"

text \<open>
  C1, as the specification states it, fails: on the exact input of the scenario the files
  marker \<^verbatim>\<open>### 4.3. Code Files\<close> lacks the words \<^verbatim>\<open>(Full & Unabridged)\<close> that the files pattern
  asks for, so no files section is found and the files are not the one file
  \<^verbatim>\<open>index.html\<close>.
\<close>

theorem C1_scenarioA_counterexample:
  "parseResponse scenarioA \<noteq>
     Inr \<lparr>header = ''Hi'', structure = ''Tree'', notes = ''Done'',
          files = [\<lparr>name = ''index.html'', lang = ''html'', content = ''<h1>Hi</h1>''\<rparr>]\<rparr>"
  by code_simp

text \<open>
  C1, amended: on the exact input of the scenario \<open>parseResponse\<close> returns the header
  \<^verbatim>\<open>Hi\<close>, the structure \<^verbatim>\<open>Tree\<close>, the notes \<^verbatim>\<open>Done\<close> and the one file of the last-resort
  path, named \<^verbatim>\<open>code.js\<close>, of language \<^verbatim>\<open>javascript\<close>, whose content is what follows the
  word \<^verbatim>\<open>html\<close> of the fence; with the files marker written in full,
  \<^verbatim>\<open>### 4.3. Code Files (Full & Unabridged)\<close>, the files are the one file \<^verbatim>\<open>index.html\<close> of
  language \<^verbatim>\<open>html\<close> and content \<^verbatim>\<open><h1>Hi</h1>\<close>.
\<close>

theorem C1_scenarioA:
  "parseResponse scenarioA =
     Inr \<lparr>header = ''Hi'', structure = ''Tree'', notes = ''Done'',
          files = [\<lparr>name = ''code.js'', lang = ''javascript'',
                    content = '':index.html\<newline><h1>Hi</h1>''\<rparr>]\<rparr>
   \<and> parseResponse scenarioA_full =
     Inr \<lparr>header = ''Hi'', structure = ''Tree'', notes = ''Done'',
          files = [\<lparr>name = ''index.html'', lang = ''html'', content = ''<h1>Hi</h1>''\<rparr>]\<rparr>"
  by code_simp

subsection \<open>C2: the sandbox of the preview frame\<close>

text \<open>
  C2, as the specification states it, fails: the frame's sandbox attribute holds the token
  \<^verbatim>\<open>allow-same-origin\<close> beside \<^verbatim>\<open>allow-scripts\<close>, so script execution is not the only privilege
  granted.
\<close>

theorem C2_sandbox_counterexample:
  "''allow-same-origin'' \<in> sandboxTokens (renderPreview [])
   \<and> sandboxTokens (renderPreview []) \<noteq> {''allow-scripts''}"
  by (simp add: sandboxTokens_def renderPreview_def ascii_space_def)

text \<open>
  C2, amended: whatever the preview content, the sandbox permission set of the rendered
  preview frame is exactly script execution and same-origin access
  (\<^verbatim>\<open>allow-scripts\<close>, \<^verbatim>\<open>allow-same-origin\<close>), and no other privilege.
\<close>

theorem C2_sandbox:
  "sandboxTokens (renderPreview c) = {''allow-scripts'', ''allow-same-origin''}"
  by (simp add: sandboxTokens_def renderPreview_def ascii_space_def)

subsection \<open>C5: the four regions\<close>

lemma sectionFiles_Inr: "\<exists>fs. sectionFiles inp = Inr fs"
  unfolding sectionFiles_def using codeBlocks_Inr by (auto split: option.splits)

lemma filesSection_eq: "filesSection inp = files_region inp"
proof -
  have "map_option js_to_string (map_option (\<lambda>m. groups m 1) (rx_exec filesSectionRegex inp))
        = map_option js_to_string (map_option Some (files_region inp))"
    by (simp only: files_exec)
  then show ?thesis
    by (simp add: filesSection_def option.map_comp comp_def js_to_string_def option.map_ident)
qed

lemma parseResponse_Inr:
  "\<exists>fs. parseResponse inp =
     Inr \<lparr>header = (case between ''### 4.1. Header Block'' ''### 4.2. Project Structure'' inp of
                      None \<Rightarrow> [] | Some mid \<Rightarrow> trim mid),
          structure = (case between ''### 4.2. Project Structure'' ''### 4.3. Code Files'' inp of
                      None \<Rightarrow> [] | Some mid \<Rightarrow> trim mid),
          notes = (case cut_at ''### 4.4. Notes'' inp of None \<Rightarrow> [] | Some (a, r) \<Rightarrow> trim r),
          files = fs\<rparr>"
proof -
  from sectionFiles_Inr obtain fs where fs: "sectionFiles inp = Inr fs" by blast
  obtain fs' where fs': "(if fs = [] then fallbackFiles inp else Inr fs) = Inr fs'"
    by (cases "fs = []") (simp_all add: fallbackFiles_eq)
  show ?thesis
    unfolding parseResponse_def header_section structure_section notes_section fs
    by (simp add: bind_r_def fs')
qed

text \<open>
  The claim in the words of the specification: a region is the text between its own
  marker and the next marker (any later marker of the fixed order), or the end of the text,
  and the empty string when its own marker is missing. The white space around the text is
  left out, as the specification's worked example has it.
\<close>

fun until_marker :: "string list \<Rightarrow> string \<Rightarrow> string" where
  "until_marker ms [] = []"
| "until_marker ms (x # xs) =
     (if list_ex (\<lambda>m. prefix m (x # xs)) ms then [] else x # until_marker ms xs)"

definition spec_region :: "string \<Rightarrow> string list \<Rightarrow> string \<Rightarrow> string" where
  "spec_region own later inp =
     (case cut_at own inp of None \<Rightarrow> [] | Some (_, r) \<Rightarrow> trim (until_marker later r))"

definition headerThenNotes :: string where
  "headerThenNotes = ''### 4.1. Header Block\<newline>Hi\<newline>### 4.4. Notes\<newline>Done''"

text \<open>
  C5, as the specification states it, fails, in two ways. A text with the header marker,
  the line \<^verbatim>\<open>Hi\<close> and then the notes marker has its header marker, and \<^verbatim>\<open>Hi\<close> between that
  marker and the next one; the header returned is empty, because the header pattern also
  asks for the structure marker. And in the worked example of the specification the files
  marker \<^verbatim>\<open>### 4.3. Code Files\<close> is there with a block after it; the files region is absent,
  because the files pattern asks for \<^verbatim>\<open>### 4.3. Code Files (Full & Unabridged)\<close>.
\<close>

theorem C5_sections_counterexample:
  "parseResponse headerThenNotes
     = Inr \<lparr>header = [], structure = [], notes = ''Done'', files = []\<rparr>
   \<and> spec_region ''### 4.1. Header Block''
        [''### 4.2. Project Structure'', ''### 4.3. Code Files'', ''### 4.4. Notes'']
        headerThenNotes = ''Hi''
   \<and> filesSection scenarioA = None
   \<and> spec_region ''### 4.3. Code Files'' [''### 4.4. Notes''] scenarioA
       = ''```html:index.html\<newline><h1>Hi</h1>\<newline>```''"
  by code_simp

text \<open>
  C5, amended: for every raw text the extraction returns a document, never an error, and
  \<^item> the header is the text between the first header marker and the first structure marker
    after it, with leading and trailing white space removed, and the empty string when
    the header marker, or the structure marker after it, is missing;
  \<^item> the structure is, in the same way, the trimmed text between the first
    \<^verbatim>\<open>### 4.2. Project Structure\<close> and the first \<^verbatim>\<open>### 4.3. Code Files\<close> after it;
  \<^item> the notes are the trimmed text from the first notes marker to the end of the text, and
    the empty string when the marker is missing;
  \<^item> the files region read by the block scan is absent when the marker
    \<^verbatim>\<open>### 4.3. Code Files (Full & Unabridged)\<close> is missing; otherwise it is the trimmed text
    between that marker and the first notes marker after it or, with no notes marker after
    it, the rest of the text without its leading white space.
\<close>

theorem C5_sections:
  "\<exists>d. parseResponse inp = Inr d
     \<and> header d = (case between ''### 4.1. Header Block'' ''### 4.2. Project Structure'' inp of
                    None \<Rightarrow> [] | Some mid \<Rightarrow> trim mid)
     \<and> structure d = (case between ''### 4.2. Project Structure'' ''### 4.3. Code Files'' inp of
                    None \<Rightarrow> [] | Some mid \<Rightarrow> trim mid)
     \<and> notes d = (case cut_at ''### 4.4. Notes'' inp of None \<Rightarrow> [] | Some (a, r) \<Rightarrow> trim r)
     \<and> filesSection inp =
         (case cut_at ''### 4.3. Code Files (Full & Unabridged)'' inp of
            None \<Rightarrow> None
          | Some (a, r) \<Rightarrow>
              Some (case cut_at ''### 4.4. Notes'' r of
                      None \<Rightarrow> dropWhile rx_space r
                    | Some (mid, b) \<Rightarrow> trim mid))"
proof -
  from parseResponse_Inr[of inp] obtain fs where
    "parseResponse inp =
     Inr \<lparr>header = (case between ''### 4.1. Header Block'' ''### 4.2. Project Structure'' inp of
                      None \<Rightarrow> [] | Some mid \<Rightarrow> trim mid),
          structure = (case between ''### 4.2. Project Structure'' ''### 4.3. Code Files'' inp of
                      None \<Rightarrow> [] | Some mid \<Rightarrow> trim mid),
          notes = (case cut_at ''### 4.4. Notes'' inp of None \<Rightarrow> [] | Some (a, r) \<Rightarrow> trim r),
          files = fs\<rparr>" by blast
  moreover have "filesSection inp =
         (case cut_at ''### 4.3. Code Files (Full & Unabridged)'' inp of
            None \<Rightarrow> None
          | Some (a, r) \<Rightarrow>
              Some (case cut_at ''### 4.4. Notes'' r of
                      None \<Rightarrow> dropWhile rx_space r
                    | Some (mid, b) \<Rightarrow> trim mid))"
    unfolding filesSection_eq files_region_def lstrip_def by (rule refl)
  ultimately show ?thesis by simp
qed

subsection \<open>C6: a result with no file\<close>

text \<open>
  C6: when a generation is started (an image or a URL is present) and the response
  decomposes into a document with no file, the error modal is shown, no document is stored
  and none is passed to the preview; and whatever the generation gives, a document that
  reaches the preview has a file.
\<close>

theorem C6_empty_result_is_error:
  assumes "imageBase64 st \<noteq> [] \<or> urlInput st \<noteq> []"
    and "parseResponse t = Inr d" and "files d = []"
  shows "showErrorModal (generateCode st (Resolved (Some t)))
         \<and> output (generateCode st (Resolved (Some t))) = None
         \<and> previewInput (generateCode st (Resolved (Some t))) = None
         \<and> \<not> loading (generateCode st (Resolved (Some t)))
         \<and> (\<forall>res d'. previewInput (generateCode st res) = Some d' \<longrightarrow> files d' \<noteq> [])"
proof -
  have "files d' \<noteq> []" if "previewInput (generateCode st res) = Some d'" for res d'
    using that assms(1)
    by (auto simp: previewInput_def generateCode_def Let_def
             split: gen_result.splits sum.splits if_splits)
  with assms show ?thesis
    by (auto simp: previewInput_def generateCode_def Let_def parseResponseOf_def)
qed

theorem C6_empty_result_is_error_witness:
  "(let st = \<lparr>imageBase64 = ''data:image/png;base64,AAAA'', urlInput = [], output = None,
               loading = False, showErrorModal = False\<rparr>;
        st' = generateCode st (Resolved (Some ''no code here''))
    in parseResponse ''no code here'' = Inr \<lparr>header = [], structure = [], notes = [], files = []\<rparr>
       \<and> showErrorModal st' \<and> output st' = None \<and> previewInput st' = None \<and> \<not> loading st')"
proof -
  let ?st = "\<lparr>imageBase64 = ''data:image/png;base64,AAAA'', urlInput = [], output = None,
               loading = False, showErrorModal = False\<rparr>"
  let ?d = "\<lparr>header = [], structure = [], notes = [], files = []\<rparr>"
  have 1: "imageBase64 ?st \<noteq> [] \<or> urlInput ?st \<noteq> []" by simp
  have 2: "parseResponse ''no code here'' = Inr ?d" by code_simp
  have 3: "files ?d = []" by simp
  from C6_empty_result_is_error[OF 1 2 3] 2 show ?thesis by (simp add: Let_def)
qed

subsection \<open>C8: no entry file\<close>

text \<open>
  C8: with no file named exactly \<^verbatim>\<open>index.html\<close> the preview effect returns, without an
  error, the placeholder that says \<^verbatim>\<open>No index.html found to preview.\<close> as the preview
  content; it registers no object URL (the store is the one it was given) and leaves
  nothing to revoke.
\<close>

theorem C8_no_index_placeholder:
  assumes "\<forall>f \<in> set fs. name f \<noteq> ''index.html''"
  shows \<open>previewEffect gen fs st =
     Inr \<lparr>previewContent =
            ''<div class="flex items-center justify-center h-full text-gray-500"><h2>No index.html found to preview.</h2></div>'',
          store = st, cleanup = []\<rparr>\<close>
proof -
  from assms have "find (\<lambda>f. name f = ''index.html'') fs = None"
    by (simp add: find_None_iff)
  then show ?thesis by (simp add: previewEffect_def noIndexPlaceholder_def)
qed

theorem C8_no_index_placeholder_witness:
  \<open>previewEffect (\<lambda>n. ''blob:x'')
     [\<lparr>name = ''app.js'', lang = ''javascript'', content = ''console.log(1)''\<rparr>]
     \<lparr>issued = 0, live = []\<rparr> =
     Inr \<lparr>previewContent =
            ''<div class="flex items-center justify-center h-full text-gray-500"><h2>No index.html found to preview.</h2></div>'',
          store = \<lparr>issued = 0, live = []\<rparr>, cleanup = []\<rparr>\<close>
proof -
  have h: "\<forall>f \<in> set [\<lparr>name = ''app.js'', lang = ''javascript'', content = ''console.log(1)''\<rparr>].
       name f \<noteq> ''index.html''" by simp
  from C8_no_index_placeholder[OF h] show ?thesis .
qed

subsection \<open>C10: the file selected first\<close>

text \<open>
  C10: for a non-empty files list the initial selection is defined; it is a file of the
  list: the first one named exactly \<^verbatim>\<open>index.html\<close> when there is one, and the first file of
  the list otherwise.
\<close>

theorem C10_initial_selection:
  assumes "fs \<noteq> []"
  shows "\<exists>f. initialSelectedFile fs = Some f \<and> f \<in> set fs
           \<and> (if \<exists>g \<in> set fs. name g = ''index.html''
               then name f = ''index.html''
                    \<and> (\<exists>i < length fs. fs ! i = f \<and> (\<forall>j < i. name (fs ! j) \<noteq> ''index.html''))
               else f = hd fs)"
proof (cases "find (\<lambda>f. name f = ''index.html'') fs")
  case None
  then have no: "\<not> (\<exists>g \<in> set fs. name g = ''index.html'')" by (simp add: find_None_iff)
  from assms obtain f rest where fs: "fs = f # rest" by (cases fs) auto
  with None have "initialSelectedFile fs = Some f" by (simp add: initialSelectedFile_def)
  with no fs show ?thesis by auto
next
  case (Some f)
  then obtain i where i: "i < length fs" "name (fs ! i) = ''index.html''" "f = fs ! i"
    "\<forall>j < i. name (fs ! j) \<noteq> ''index.html''"
    by (auto simp: find_Some_iff)
  from Some have "initialSelectedFile fs = Some f" by (simp add: initialSelectedFile_def)
  moreover from i have "f \<in> set fs" by simp
  moreover from i have "\<exists>g \<in> set fs. name g = ''index.html''" by (metis nth_mem)
  ultimately show ?thesis using i by auto
qed

theorem C10_initial_selection_witness:
  "(let fs = [\<lparr>name = ''style.css'', lang = ''css'', content = ''a''\<rparr>,
             \<lparr>name = ''index.html'', lang = ''html'', content = ''b''\<rparr>,
             \<lparr>name = ''index.html'', lang = ''html'', content = ''c''\<rparr>]
    in fs \<noteq> [] \<and> initialSelectedFile fs = Some \<lparr>name = ''index.html'', lang = ''html'', content = ''b''\<rparr>)
   \<and> initialSelectedFile [\<lparr>name = ''style.css'', lang = ''css'', content = ''a''\<rparr>,
                          \<lparr>name = ''app.js'', lang = ''javascript'', content = ''b''\<rparr>]
       = Some \<lparr>name = ''style.css'', lang = ''css'', content = ''a''\<rparr>"
proof -
  let ?fs = "[\<lparr>name = ''style.css'', lang = ''css'', content = ''a''\<rparr>,
             \<lparr>name = ''index.html'', lang = ''html'', content = ''b''\<rparr>,
             \<lparr>name = ''index.html'', lang = ''html'', content = ''c''\<rparr>]"
  let ?gs = "[\<lparr>name = ''style.css'', lang = ''css'', content = ''a''\<rparr>,
             \<lparr>name = ''app.js'', lang = ''javascript'', content = ''b''\<rparr>]"
  have 1: "?fs \<noteq> []" by simp
  have 2: "?gs \<noteq> []" by simp
  from C10_initial_selection[OF 1] obtain f where
    f: "initialSelectedFile ?fs = Some f" by blast
  have "initialSelectedFile ?fs = Some \<lparr>name = ''index.html'', lang = ''html'', content = ''b''\<rparr>"
    by (simp add: initialSelectedFile_def)
  moreover from C10_initial_selection[OF 2]
  have "initialSelectedFile ?gs = Some (hd ?gs)" by auto
  ultimately show ?thesis using 1 by (simp add: Let_def)
qed

subsection \<open>Fenced blocks as the specification writes them\<close>

text \<open>
  A fenced block in the form of the specification: the opening fence, a language token,
  a name token after a colon (or none), a line feed, the body, and the closing fence on a
  line of its own.
\<close>

record fenced_block =
  tag_lang :: string
  tag_name :: "string option"
  body :: string

definition render_block :: "fenced_block \<Rightarrow> string" where
  "render_block b =
     fence @ tag_lang b @ (case tag_name b of None \<Rightarrow> [] | Some n \<Rightarrow> '':'' @ n)
       @ ''\<newline>'' @ body b @ ''\<newline>'' @ fence"

subsection \<open>C3: the last-resort file\<close>

lemma parseResponse_files:
  assumes "sectionFiles inp = Inr fs"
  shows "\<exists>d. parseResponse inp = Inr d
           \<and> files d = (if fs = [] then
                          (case first_fence_capture inp of None \<Rightarrow> []
                           | Some cap \<Rightarrow>
                               [\<lparr>name = ''code.js'', lang = ''javascript'', content = trim cap\<rparr>])
                        else fs)"
  unfolding parseResponse_def header_section structure_section notes_section assms
  by (simp add: bind_r_def fallbackFiles_eq)

lemma cut_at_occurs: "\<exists>a' r. cut_at l (a @ l @ b) = Some (a', r) \<and> length a' \<le> length a"
proof (induction a)
  case Nil
  have "cut_at l (l @ b) = Some ([], drop (length l) (l @ b))"
    by (cases "l @ b") (auto, metis prefixI)
  then show ?case by simp
next
  case (Cons x xs)
  then show ?case by auto
qed

lemma cut_at_occurs_rest:
  assumes "cut_at l (a @ l @ b) = Some (a', r)"
  shows "suffix b r"
proof -
  from cut_at_occurs[of l a b] assms have le: "length a' \<le> length a" by simp
  from cut_at_Some[OF assms] have eq: "a @ l @ b = a' @ l @ r" .
  then have "suffix b (a' @ l @ r)" by (metis suffix_append suffix_order.refl)
  moreover have "suffix r (a' @ l @ r)" by (simp add: suffix_def)
  moreover have "length b \<le> length r"
  proof -
    from eq have "length a + length l + length b = length a' + length l + length r"
      by (metis length_append add.assoc)
    with le show ?thesis by simp
  qed
  ultimately show ?thesis by (rule suffix_length_suffix)
qed

lemma two_fences_body:
  assumes "s = a @ fence @ b @ fence @ c"
  shows "first_fence_capture s \<noteq> None"
proof -
  from cut_at_occurs[of fence a "b @ fence @ c"] assms obtain a' r where
    1: "cut_at fence s = Some (a', r)" by auto
  with assms have "suffix (b @ fence @ c) r" using cut_at_occurs_rest by blast
  then obtain z where "r = (z @ b) @ fence @ c" by (auto simp: suffix_def)
  with cut_at_occurs[of fence "z @ b" c] obtain a2 r2 where "cut_at fence r = Some (a2, r2)"
    by auto
  then have "cut_at fence (dropWhile rx_word r) \<noteq> None"
    unfolding cut_at_dropWhile[of fence rx_word, OF fence_props(1,3)] by simp
  with 1 show ?thesis by (auto simp: first_fence_capture_def split: option.splits)
qed

lemma rx_exec_here:
  "rx_exec r s = Some m \<Longrightarrow>
   \<exists>t s' c. rmatch r Some (t, no_captures) = Some (s', c) \<and> s = preceding m @ t
            \<and> groups m = c \<and> following m = s'"
proof (induction s arbitrary: m)
  case Nil
  then show ?case by (auto simp: match_here_def split: option.splits)
next
  case (Cons x xs)
  show ?case
  proof (cases "match_here r (x # xs)")
    case None
    with Cons.prems obtain m' where m': "rx_exec r xs = Some m'" "m = m'\<lparr>preceding := x # preceding m'\<rparr>"
      by auto
    from Cons.IH[OF m'(1)] m'(2) show ?thesis by auto
  next
    case (Some a)
    with Cons.prems show ?thesis by (auto simp: match_here_def split: option.splits)
  qed
qed

lemma codeBlock_two_fences:
  assumes "rx_exec codeBlockRegex s = Some m"
  shows "\<exists>a b c. s = a @ fence @ b @ fence @ c"
proof -
  from rx_exec_here[OF assms] obtain t s' c where
    r: "rmatch codeBlockRegex Some (t, no_captures) = Some (s', c)" and s: "s = preceding m @ t"
    by blast
  let ?rest = "seqs [Grp 1 (Star rx_word), Opt (Lit '':''), Opt (Grp 2 (Plus rx_name)),
     Lit ''\<newline>'', Grp 3 (LazyStar rx_any)]"
  from r have "rmatch (Seq (Lit ''```'') (Seq (Grp 1 (Star rx_word)) (Seq (Opt (Lit '':''))
      (Seq (Opt (Grp 2 (Plus rx_name))) (Seq (Lit ''\<newline>'') (Seq (Grp 3 (LazyStar rx_any))
      (Lit ''\<newline>```''))))))) Some (t, no_captures) = Some (s', c)"
    unfolding codeBlockRegex_def by (simp only: seqs.simps)
  then have "rmatch (Lit ''```'') (rmatch (Grp 1 (Star rx_word)) (rmatch (Opt (Lit '':''))
      (rmatch (Opt (Grp 2 (Plus rx_name))) (rmatch (Lit ''\<newline>'') (rmatch (Grp 3 (LazyStar rx_any))
      (rmatch (Lit ''\<newline>```'') Some)))))) (t, no_captures) = Some (s', c)"
    by (simp only: rmatch_Seq)
  then obtain t1 where t1: "t = ''```'' @ t1"
    and 1: "rmatch (Grp 1 (Star rx_word)) (rmatch (Opt (Lit '':''))
      (rmatch (Opt (Grp 2 (Plus rx_name))) (rmatch (Lit ''\<newline>'') (rmatch (Grp 3 (LazyStar rx_any))
      (rmatch (Lit ''\<newline>```'') Some))))) (t1, no_captures) = Some (s', c)"
    by (auto simp: rmatch_Lit prefix_def split: if_splits)
  from rmatch_suffix[OF 1] obtain t2 c2 where t2: "suffix t2 t1"
    and 2: "rmatch (Opt (Lit '':''))
      (rmatch (Opt (Grp 2 (Plus rx_name))) (rmatch (Lit ''\<newline>'') (rmatch (Grp 3 (LazyStar rx_any))
      (rmatch (Lit ''\<newline>```'') Some)))) (t2, c2) = Some (s', c)" by blast
  from rmatch_suffix[OF 2] obtain t3 c3 where t3: "suffix t3 t2"
    and 3: "rmatch (Opt (Grp 2 (Plus rx_name))) (rmatch (Lit ''\<newline>'') (rmatch (Grp 3 (LazyStar rx_any))
      (rmatch (Lit ''\<newline>```'') Some))) (t3, c3) = Some (s', c)" by blast
  from rmatch_suffix[OF 3] obtain t4 c4 where t4: "suffix t4 t3"
    and 4: "rmatch (Lit ''\<newline>'') (rmatch (Grp 3 (LazyStar rx_any))
      (rmatch (Lit ''\<newline>```'') Some)) (t4, c4) = Some (s', c)" by blast
  from rmatch_suffix[OF 4] obtain t5 c5 where t5: "suffix t5 t4"
    and 5: "rmatch (Grp 3 (LazyStar rx_any)) (rmatch (Lit ''\<newline>```'') Some) (t5, c5) = Some (s', c)"
    by blast
  from rmatch_suffix[OF 5] obtain t6 c6 where t6: "suffix t6 t5"
    and 6: "rmatch (Lit ''\<newline>```'') Some (t6, c6) = Some (s', c)" by blast
  from 6 have "t6 = ''\<newline>```'' @ s'"
    by (auto simp: rmatch_Lit prefix_def split: if_splits)
  moreover from t2 t3 t4 t5 t6 have "suffix t6 t1" by (meson suffix_order.trans)
  ultimately obtain z where "t1 = z @ ''\<newline>```'' @ s'" by (auto simp: suffix_def)
  with t1 s have "s = preceding m @ fence @ (z @ ''\<newline>'') @ fence @ s'"
    by (simp add: fence_def)
  then show ?thesis by blast
qed

lemma trim_inside: "\<exists>w1 w2. s = w1 @ trim s @ w2"
proof -
  from lstrip_split[of s] obtain w1 where 1: "s = w1 @ lstrip s" by blast
  from rstrip_split[of "lstrip s"] obtain w2 where 2: "lstrip s = rstrip (lstrip s) @ w2" by blast
  from 1 2 have "s = w1 @ trim s @ w2" by (simp add: trim_strip)
  then show ?thesis by blast
qed

lemma filesSection_inside:
  assumes "filesSection inp = Some sec"
  shows "\<exists>p q. inp = p @ sec @ q"
proof -
  from assms obtain a r where
    c: "cut_at ''### 4.3. Code Files (Full & Unabridged)'' inp = Some (a, r)"
    and sec: "sec = (case cut_at ''### 4.4. Notes'' r of None \<Rightarrow> lstrip r
                     | Some (mid, _) \<Rightarrow> trim mid)"
    unfolding filesSection_eq files_region_def by (auto split: option.splits)
  from cut_at_Some[OF c] have inp: "inp = a @ ''### 4.3. Code Files (Full & Unabridged)'' @ r" .
  show ?thesis
  proof (cases "cut_at ''### 4.4. Notes'' r")
    case None
    from lstrip_split[of r] obtain w where "r = w @ lstrip r" by blast
    with inp have "inp = (a @ ''### 4.3. Code Files (Full & Unabridged)'' @ w) @ lstrip r @ []"
      by simp
    with None sec show ?thesis by (metis option.simps(4))
  next
    case (Some p)
    obtain mid b where p: "p = (mid, b)" by (cases p)
    from cut_at_Some Some p have r: "r = mid @ ''### 4.4. Notes'' @ b" by blast
    from trim_inside[of mid] obtain w1 w2 where "mid = w1 @ trim mid @ w2" by blast
    with inp r have "inp = (a @ ''### 4.3. Code Files (Full & Unabridged)'' @ w1) @ trim mid
                            @ (w2 @ ''### 4.4. Notes'' @ b)"
      by simp
    moreover from Some p sec have "sec = trim mid" by simp
    ultimately show ?thesis by blast
  qed
qed

lemma no_fence_no_section_files:
  assumes "first_fence_capture inp = None"
  shows "sectionFiles inp = Inr []"
proof (cases "filesSection inp")
  case None
  then show ?thesis by (simp add: sectionFiles_def)
next
  case (Some sec)
  have "rx_exec codeBlockRegex sec = None"
  proof (rule ccontr)
    assume "rx_exec codeBlockRegex sec \<noteq> None"
    then obtain m where "rx_exec codeBlockRegex sec = Some m" by auto
    from codeBlock_two_fences[OF this] obtain a b c where sec: "sec = a @ fence @ b @ fence @ c"
      by blast
    from filesSection_inside[OF Some] obtain p q where "inp = p @ sec @ q" by blast
    with sec have "inp = (p @ a) @ fence @ b @ fence @ (c @ q)" by simp
    from two_fences_body[OF this] assms show False by simp
  qed
  with Some show ?thesis by (simp add: sectionFiles_def codeBlocks.simps)
qed

definition taggedInNotes :: string where
  "taggedInNotes =
     ''### 4.3. Code Files (Full & Unabridged)\<newline>See the notes.\<newline>### 4.4. Notes\<newline>''
       @ render_block \<lparr>tag_lang = ''js'', tag_name = Some ''app.js'', body = ''console.log(1)''\<rparr>"

text \<open>
  C3, as the specification states it, fails: the content of the last-resort file is not
  the body of the block when the block carries a name. The files region of this text
  holds no block; its notes hold the block \<^verbatim>\<open>js:app.js\<close> with body \<^verbatim>\<open>console.log(1)\<close>. The
  fallback pattern skips the word characters after the fence and takes all that follows,
  so the content starts with the colon and the name.
\<close>

theorem C3_last_resort_file_counterexample:
  "sectionFiles taggedInNotes = Inr []
   \<and> parseResponse taggedInNotes =
       Inr \<lparr>header = [], structure = [],
            notes = ''```js:app.js\<newline>console.log(1)\<newline>```'',
            files = [\<lparr>name = ''code.js'', lang = ''javascript'',
                      content = '':app.js\<newline>console.log(1)''\<rparr>]\<rparr>
   \<and> trim (body \<lparr>tag_lang = ''js'', tag_name = Some ''app.js'', body = ''console.log(1)''\<rparr>)
       = ''console.log(1)''"
  by code_simp

text \<open>
  C3, amended: for every raw text the extraction returns a document. When the scan of the
  files region has found no block (the region is absent, or no block in it), the files are
  settled by the first fence of the whole text: what the fallback captures is the text
  after that fence and the word characters that directly follow it, up to the next fence
  (so a colon and a name on the tag line belong to it). When there is such a text, the
  files are exactly one file named \<^verbatim>\<open>code.js\<close>, of language \<^verbatim>\<open>javascript\<close>, whose content is
  that text trimmed; when there is none, no file. And when the whole text has no such pair
  of fences, the files list is empty.
\<close>

theorem C3_last_resort_file:
  "\<exists>d. parseResponse inp = Inr d
     \<and> (sectionFiles inp = Inr [] \<longrightarrow>
          files d = (case first_fence_capture inp of
                       None \<Rightarrow> []
                     | Some cap \<Rightarrow>
                         [\<lparr>name = ''code.js'', lang = ''javascript'', content = trim cap\<rparr>]))
     \<and> (first_fence_capture inp = None \<longrightarrow> files d = [])"
proof -
  from sectionFiles_Inr obtain fs where fs: "sectionFiles inp = Inr fs" by blast
  from parseResponse_files[OF fs] obtain d where d: "parseResponse inp = Inr d"
    "files d = (if fs = [] then
                  (case first_fence_capture inp of None \<Rightarrow> []
                   | Some cap \<Rightarrow>
                       [\<lparr>name = ''code.js'', lang = ''javascript'', content = trim cap\<rparr>])
                else fs)" by blast
  have "files d = []" if "first_fence_capture inp = None"
    using no_fence_no_section_files[OF that] fs d(2) that by simp
  with d fs show ?thesis by auto
qed

definition scenarioB :: string where
  "scenarioB = ''### 4.3. Code Files (Full & Unabridged)\<newline>See the notes.\<newline>### 4.4. Notes\<newline>```\<newline>console.log(1)\<newline>```''"

theorem C3_last_resort_file_witness:
  "sectionFiles scenarioB = Inr []
   \<and> first_fence_capture scenarioB = Some ''\<newline>console.log(1)\<newline>''
   \<and> parseResponse scenarioB =
       Inr \<lparr>header = [], structure = [], notes = ''```\<newline>console.log(1)\<newline>```'',
            files = [\<lparr>name = ''code.js'', lang = ''javascript'', content = ''console.log(1)''\<rparr>]\<rparr>
   \<and> first_fence_capture ''no code here'' = None
   \<and> parseResponse ''no code here'' = Inr \<lparr>header = [], structure = [], notes = [], files = []\<rparr>"
proof -
  have 1: "sectionFiles scenarioB = Inr []" by code_simp
  have 2: "first_fence_capture scenarioB = Some ''\<newline>console.log(1)\<newline>''" by code_simp
  have 3: "first_fence_capture ''no code here'' = None" by code_simp
  have t: "trim ''\<newline>console.log(1)\<newline>'' = ''console.log(1)''" by code_simp
  from C3_last_resort_file[of scenarioB] 1 2 t obtain d where
    d: "parseResponse scenarioB = Inr d"
       "files d = [\<lparr>name = ''code.js'', lang = ''javascript'', content = ''console.log(1)''\<rparr>]"
    by auto
  have "parseResponse scenarioB =
       Inr \<lparr>header = [], structure = [], notes = ''```\<newline>console.log(1)\<newline>```'',
            files = [\<lparr>name = ''code.js'', lang = ''javascript'', content = ''console.log(1)''\<rparr>]\<rparr>"
    by code_simp
  moreover from C3_last_resort_file[of "''no code here''"] 3 obtain d' where
    "parseResponse ''no code here'' = Inr d'" "files d' = []" by auto
  moreover have "parseResponse ''no code here'' = Inr \<lparr>header = [], structure = [], notes = [], files = []\<rparr>"
    by code_simp
  ultimately show ?thesis using 1 2 3 by simp
qed

subsection \<open>C4: the blocks of the files section\<close>

text \<open>
  A block is correctly tagged, for the block pattern of line 188, when its language token
  is made of word characters (letters, digits, underscore; it may be empty), its name
  token, if it has one, is not empty and made only of word characters, dots, slashes,
  backslashes and hyphens, and the text \<open>line feed, fence\<close> occurs in
  \<open>body, line feed, fence\<close> at the end only: the body holds no line feed directly followed
  by a fence (\<open>body_closed_iff\<close>). \<open>layout\<close> writes a files section: blocks with text
  around them.
\<close>

definition well_tagged :: "fenced_block \<Rightarrow> bool" where
  "well_tagged b =
     (list_all rx_word (tag_lang b)
      \<and> (case tag_name b of None \<Rightarrow> True | Some n \<Rightarrow> n \<noteq> [] \<and> list_all rx_name n)
      \<and> cut_at (''\<newline>'' @ fence) (body b @ ''\<newline>'' @ fence) = Some (body b, []))"

fun layout :: "string \<Rightarrow> (fenced_block \<times> string) list \<Rightarrow> string" where
  "layout g [] = g"
| "layout g ((b, g') # rest) = g @ render_block b @ layout g' rest"

definition file_of_block :: "fenced_block \<Rightarrow> CodeFile" where
  "file_of_block b =
     \<lparr>name = (case tag_name b of None \<Rightarrow> ''untitled'' | Some n \<Rightarrow> n),
      lang = (if tag_lang b = [] then ''text'' else tag_lang b),
      content = trim (body b)\<rparr>"

lemma closing_fence_straddle:
  assumes "prefix (''\<newline>'' @ fence) (x # b @ ''\<newline>'' @ fence)"
  shows "prefix (''\<newline>'' @ fence) (x # b)"
proof (cases b)
  case Nil
  with assms show ?thesis by (simp add: fence_def)
next
  case (Cons y b1)
  show ?thesis
  proof (cases b1)
    case Nil
    with Cons assms show ?thesis by (simp add: fence_def)
  next
    case (Cons z b2)
    show ?thesis
    proof (cases b2)
      case Nil
      with Cons \<open>b = y # b1\<close> assms show ?thesis by (simp add: fence_def)
    next
      case (Cons w b3)
      with \<open>b1 = z # b2\<close> \<open>b = y # b1\<close> assms show ?thesis by (auto simp: fence_def)
    qed
  qed
qed

lemma body_closed_iff:
  "cut_at (''\<newline>'' @ fence) (b @ ''\<newline>'' @ fence) = Some (b, [])
   \<longleftrightarrow> cut_at (''\<newline>'' @ fence) b = None"
proof (induction b)
  case Nil
  show ?case by (simp add: fence_def)
next
  case (Cons x b)
  show ?case
  proof (cases "prefix (''\<newline>'' @ fence) (x # b)")
    case True
    then have "prefix (''\<newline>'' @ fence) ((x # b) @ ''\<newline>'' @ fence)"
      using prefix_prefix by blast
    with True show ?thesis by simp
  next
    case False
    with closing_fence_straddle[of x b]
    have "\<not> prefix (''\<newline>'' @ fence) (x # b @ ''\<newline>'' @ fence)" by blast
    with False Cons.IH show ?thesis by (auto split: option.splits)
  qed
qed

lemma cut_at_length: "cut_at l s = Some (a, r) \<Longrightarrow> length l \<le> length s"
  by (drule cut_at_Some) simp

lemma cut_at_append:
  assumes "cut_at l s = Some (a, r)"
  shows "cut_at l (s @ t) = Some (a, r @ t)"
using assms proof (induction s arbitrary: a)
  case Nil
  then have "l = []" "a = []" "r = []" by (auto split: if_splits)
  then show ?case by (cases t) auto
next
  case (Cons x xs)
  show ?case
  proof (cases "prefix l (x # xs)")
    case True
    then have p: "prefix l (x # xs @ t)" using prefix_prefix[of l "x # xs" t] by simp
    from True have "length l \<le> length (x # xs)" by (rule prefix_length_le)
    then have d: "drop (length l) (x # xs @ t) = drop (length l) (x # xs) @ t"
      using drop_append[of "length l" "x # xs" t] by simp
    from True Cons.prems have "a = []" "r = drop (length l) (x # xs)" by auto
    with p d show ?thesis by simp
  next
    case False
    with Cons.prems obtain a' where a': "cut_at l xs = Some (a', r)" "a = x # a'" by auto
    from cut_at_length[OF a'(1)] have len: "length l \<le> length (x # xs)" by simp
    have "\<not> prefix l ((x # xs) @ t)"
    proof
      assume "prefix l ((x # xs) @ t)"
      with len have "prefix l (x # xs)"
        by (metis prefix_length_prefix prefixI)
      with False show False by simp
    qed
    with False a' Cons.IH[OF a'(1)] show ?thesis by simp
  qed
qed

lemma dropWhile_all: "list_all p l \<Longrightarrow> dropWhile p (l @ s) = dropWhile p s"
  by (induction l) auto

lemma header_rejects_backtick:
  "rmatch (Seq (Grp 1 (Star rx_word)) (Seq (Opt (Lit '':''))
      (Seq (Opt (Grp 2 (Plus rx_name))) (Seq (Lit ''\<newline>'') X)))) k (CHR ''`'' # y, c) = None"
  by (simp add: rmatch_Seq rmatch_Grp rmatch_Star rmatch_Opt rmatch_Lit rmatch_Plus
      rx_word_def rx_name_def)

lemma codeBlockRegex_unfold:
  "codeBlockRegex = Seq (Lit fence) (Seq (Grp 1 (Star rx_word)) (Seq (Opt (Lit '':''))
      (Seq (Opt (Grp 2 (Plus rx_name))) (Seq (Lit ''\<newline>'')
        (Seq (Grp 3 (LazyStar rx_any)) (Lit (''\<newline>'' @ fence)))))))"
  unfolding codeBlockRegex_def fence_def by (simp only: seqs.simps append.simps)

lemma block_tail:
  assumes "cut_at (''\<newline>'' @ fence) (bd @ ''\<newline>'' @ fence) = Some (bd, [])"
  shows "rmatch (Seq (Lit ''\<newline>'') (Seq (Grp 3 (LazyStar rx_any)) (Lit (''\<newline>'' @ fence)))) Some
           (''\<newline>'' @ bd @ ''\<newline>'' @ fence @ rest, c)
         = Some (rest, c(3 := Some bd))"
proof -
  from cut_at_append[OF assms, of rest]
  have "cut_at (''\<newline>'' @ fence) (bd @ (''\<newline>'' @ fence) @ rest) = Some (bd, rest)" by simp
  then show ?thesis
    by (simp add: rmatch_Seq rmatch_Lit lazy_until_lit)
qed

lemma block_match:
  assumes "well_tagged b"
  shows "match_here codeBlockRegex (render_block b @ rest)
         = Some \<lparr>preceding = [], matched = render_block b,
                 groups = no_captures(1 := Some (tag_lang b), 2 := tag_name b, 3 := Some (body b)),
                 following = rest\<rparr>"
proof -
  let ?tail = "Seq (Lit ''\<newline>'') (Seq (Grp 3 (LazyStar rx_any)) (Lit (''\<newline>'' @ fence)))"
  let ?after = "''\<newline>'' @ body b @ ''\<newline>'' @ fence @ rest"
  let ?c1 = "no_captures(1 := Some (tag_lang b))"
  from assms have w: "list_all rx_word (tag_lang b)"
    and bd: "cut_at (''\<newline>'' @ fence) (body b @ ''\<newline>'' @ fence) = Some (body b, [])"
    by (simp_all add: well_tagged_def)
  have tail: "rmatch ?tail Some (?after, c) = Some (rest, c(3 := Some (body b)))" for c
    by (rule block_tail[OF bd])
  \<comment> \<open>the optional colon and name\<close>
  have mid: "rmatch (Seq (Opt (Lit '':'')) (Seq (Opt (Grp 2 (Plus rx_name))) ?tail)) Some
               ((case tag_name b of None \<Rightarrow> [] | Some n \<Rightarrow> '':'' @ n) @ ?after, ?c1)
             = Some (rest, ?c1(2 := tag_name b, 3 := Some (body b)))"
  proof (cases "tag_name b")
    case None
    have "rmatch (Seq (Opt (Lit '':'')) (Seq (Opt (Grp 2 (Plus rx_name))) ?tail)) Some (?after, ?c1)
          = rmatch ?tail Some (?after, ?c1)"
      by (simp add: rmatch_Seq[of "Opt (Lit '':'')"] rmatch_Seq[of "Opt (Grp 2 (Plus rx_name))"]
          rmatch_Opt rmatch_Lit rmatch_Grp rmatch_Plus rx_name_def rx_word_def)
    moreover have "?c1(2 := None) = ?c1" by (auto simp: no_captures_def)
    ultimately show ?thesis using None tail[of ?c1] by simp
  next
    case (Some n)
    with assms obtain h t where n: "n = h # t" "rx_name h" "list_all rx_name t"
      by (cases n) (auto simp: well_tagged_def)
    have nl: "\<not> rx_name (CHR ''\<newline>'')" by (simp add: rx_name_def rx_word_def)
    have dw: "dropWhile rx_name (t @ ?after) = ?after"
      using dropWhile_all[OF n(3), of ?after] nl by simp
    have len: "length (t @ ?after) - length ?after = length t" by simp
    have name: "rmatch (Seq (Opt (Grp 2 (Plus rx_name))) ?tail) Some (n @ ?after, ?c1)
          = Some (rest, ?c1(2 := Some n, 3 := Some (body b)))"
    proof -
      let ?k = "\<lambda>s'. (\<lambda>(s', c'). if length s' = length (n @ ?after) then None
                          else rmatch ?tail Some (s', c'))
                     (s', ?c1(2 := Some (take (length (n @ ?after) - length s') (n @ ?after))))"
      have k: "?k ?after = Some (rest, ?c1(2 := Some n, 3 := Some (body b)))"
        using tail[of "?c1(2 := Some n)"] by (simp add: n(1))
      have "star_g rx_name ?k (t @ ?after) = Some (rest, ?c1(2 := Some n, 3 := Some (body b)))"
        by (rule star_g_some) (simp only: dw k)
      then show ?thesis
        unfolding rmatch_Seq[of "Opt (Grp 2 (Plus rx_name))"] rmatch_Opt rmatch_Grp rmatch_Plus
        by (simp add: n(1) n(2))
    qed
    have "rmatch (Seq (Opt (Lit '':'')) (Seq (Opt (Grp 2 (Plus rx_name))) ?tail)) Some
            ('':'' @ n @ ?after, ?c1)
          = Some (rest, ?c1(2 := Some n, 3 := Some (body b)))"
      unfolding rmatch_Seq[of "Opt (Lit '':'')"] rmatch_Opt rmatch_Lit
      using name by simp
    with Some show ?thesis by simp
  qed
  let ?x = "(case tag_name b of None \<Rightarrow> [] | Some n \<Rightarrow> '':'' @ n) @ ?after"
  have nw: "\<not> rx_word (hd ?x)"
    by (cases "tag_name b") (simp_all add: rx_word_def)
  have x_ne: "?x \<noteq> []" by simp
  have dwx: "dropWhile rx_word (tag_lang b @ ?x) = ?x"
  proof -
    from x_ne nw have "dropWhile rx_word ?x = ?x" by (cases ?x) auto
    with dropWhile_all[OF w, of ?x] show ?thesis by simp
  qed
  have lang: "rmatch (Seq (Grp 1 (Star rx_word)) (Seq (Opt (Lit '':''))
                 (Seq (Opt (Grp 2 (Plus rx_name))) ?tail))) Some (tag_lang b @ ?x, no_captures)
        = Some (rest, ?c1(2 := tag_name b, 3 := Some (body b)))"
  proof -
    let ?k = "\<lambda>s'. rmatch (Seq (Opt (Lit '':'')) (Seq (Opt (Grp 2 (Plus rx_name))) ?tail)) Some
                 (s', no_captures(1 := Some (take (length (tag_lang b @ ?x) - length s')
                                               (tag_lang b @ ?x))))"
    have "?k ?x = Some (rest, ?c1(2 := tag_name b, 3 := Some (body b)))"
      using mid by simp
    then have "star_g rx_word ?k (tag_lang b @ ?x)
               = Some (rest, ?c1(2 := tag_name b, 3 := Some (body b)))"
      by (intro star_g_some) (simp only: dwx)
    then show ?thesis
      unfolding rmatch_Seq[of "Grp 1 (Star rx_word)"] rmatch_Grp rmatch_Star by simp
  qed
  have rb: "render_block b @ rest = fence @ tag_lang b @ ?x"
    by (simp add: render_block_def)
  have "rmatch codeBlockRegex Some (render_block b @ rest, no_captures)
        = Some (rest, ?c1(2 := tag_name b, 3 := Some (body b)))"
    unfolding codeBlockRegex_unfold rb rmatch_Seq[of "Lit fence"] rmatch_Lit
    using lang by simp
  then show ?thesis by (simp add: match_here_def)
qed

lemma rx_exec_here_Some: "match_here r s = Some m \<Longrightarrow> rx_exec r s = Some m"
  by (cases s) auto

lemma cut_at_None_no_prefix: "cut_at l s = None \<Longrightarrow> \<not> prefix l s"
  by (cases s) (auto split: if_splits)

lemma rx_exec_no_lit: "cut_at l s = None \<Longrightarrow> rx_exec (Seq (Lit l) X) s = None"
proof (induction s)
  case Nil
  then show ?case using cut_at_None_no_prefix[of l "[]"] by (simp add: match_here_lit_head)
next
  case (Cons x xs)
  from Cons.prems have "\<not> prefix l (x # xs)" by (rule cut_at_None_no_prefix)
  moreover from Cons.prems have "cut_at l xs = None" by (auto split: if_splits)
  ultimately show ?case using Cons.IH by (simp add: match_here_lit_head)
qed

lemma fence_straddle:
  assumes "cut_at fence (x # g) = None" "prefix fence (x # g @ fence @ s')"
  shows "\<exists>y. drop (length fence) (x # g @ fence @ s') = CHR ''`'' # y"
proof -
  from assms(1) have np: "\<not> prefix fence (x # g)" by (rule cut_at_None_no_prefix)
  show ?thesis
  proof (cases g)
    case Nil
    with assms(2) show ?thesis by (simp add: fence_def)
  next
    case (Cons y g')
    show ?thesis
    proof (cases g')
      case Nil
      with Cons assms(2) show ?thesis by (simp add: fence_def)
    next
      case (Cons z g'')
      with \<open>g = y # g'\<close> assms(2) np show ?thesis by (auto simp: fence_def)
    qed
  qed
qed

lemma gap_skip:
  assumes "cut_at fence g = None"
  shows "rx_exec codeBlockRegex (g @ fence @ s')
         = map_option (\<lambda>m. m\<lparr>preceding := g @ preceding m\<rparr>)
             (rx_exec codeBlockRegex (fence @ s'))"
using assms proof (induction g)
  case Nil
  show ?case by (simp add: option.map_ident)
next
  case (Cons x g)
  from Cons.prems have g: "cut_at fence g = None" by (auto split: if_splits)
  have "match_here codeBlockRegex (x # g @ fence @ s') = None"
  proof (cases "prefix fence (x # g @ fence @ s')")
    case True
    from fence_straddle[OF Cons.prems True] obtain y where
      "drop (length fence) (x # g @ fence @ s') = CHR ''`'' # y" by blast
    with True show ?thesis
      unfolding codeBlockRegex_unfold match_here_lit_head
      by (simp only: if_True header_rejects_backtick option.case)
  next
    case False
    then show ?thesis unfolding codeBlockRegex_unfold match_here_lit_head by simp
  qed
  with Cons.IH[OF g] show ?case
    by (simp add: option.map_comp comp_def)
qed

lemma codeBlocks_layout:
  assumes "\<forall>(b, g) \<in> set bs. well_tagged b \<and> cut_at fence g = None"
    and "cut_at fence g0 = None"
  shows "codeBlocks (layout g0 bs) = Inr (map (\<lambda>(b, g). file_of_block b) bs)"
using assms proof (induction bs arbitrary: g0)
  case Nil
  from Nil.prems(2) have "rx_exec codeBlockRegex g0 = None"
    unfolding codeBlockRegex_unfold by (rule rx_exec_no_lit)
  then show ?case by (simp add: codeBlocks.simps)
next
  case (Cons p bs)
  obtain b g where p: "p = (b, g)" by (cases p)
  from Cons.prems(1) p have wt: "well_tagged b" and g: "cut_at fence g = None"
    and rest: "\<forall>(b, g) \<in> set bs. well_tagged b \<and> cut_at fence g = None"
    by auto
  let ?L = "layout g bs"
  obtain s' where s': "render_block b @ ?L = fence @ s'"
    by (simp add: render_block_def)
  let ?m = "\<lparr>preceding = [], matched = render_block b,
             groups = no_captures(1 := Some (tag_lang b), 2 := tag_name b, 3 := Some (body b)),
             following = ?L\<rparr>"
  from block_match[OF wt, of ?L] have "rx_exec codeBlockRegex (render_block b @ ?L) = Some ?m"
    by (rule rx_exec_here_Some)
  with gap_skip[OF Cons.prems(2), of s'] s'
  have ex: "rx_exec codeBlockRegex (g0 @ render_block b @ ?L) = Some (?m\<lparr>preceding := g0\<rparr>)"
    by simp
  from wt have nm: "or_default (tag_name b) ''untitled''
                    = (case tag_name b of None \<Rightarrow> ''untitled'' | Some n \<Rightarrow> n)"
    by (auto simp: or_default_def well_tagged_def split: option.splits)
  from Cons.IH[OF rest g] have ih: "codeBlocks ?L = Inr (map (\<lambda>(b, g). file_of_block b) bs)" .
  have lg: "or_default (Some (tag_lang b)) ''text''
            = (if tag_lang b = [] then ''text'' else tag_lang b)"
    by (simp add: or_default_def)
  show ?case
    by (subst codeBlocks.simps)
       (simp add: ex bind_r_def group_trim_def ih nm lg p file_of_block_def)
qed

definition bracketName :: fenced_block where
  "bracketName = \<lparr>tag_lang = ''tsx'', tag_name = Some ''pages/[id].tsx'', body = ''export {}''\<rparr>"

definition bracketInput :: string where
  "bracketInput =
     ''### 4.3. Code Files (Full & Unabridged)\<newline>'' @ render_block bracketName
       @ ''\<newline>### 4.4. Notes\<newline>Done''"

text \<open>
  C4, as the specification states it, fails: the files section of this text is one block
  tagged \<^verbatim>\<open>tsx:pages/[id].tsx\<close>. The block pattern takes a name of word characters, dots,
  slashes, backslashes and hyphens only, so the bracket stops it and the block is not
  found; the file returned is the last-resort file \<^verbatim>\<open>code.js\<close>, not the file of the block.
\<close>

theorem C4_section_blocks_counterexample:
  "filesSection bracketInput = Some (layout [] [(bracketName, [])])
   \<and> parseResponse bracketInput =
       Inr \<lparr>header = [], structure = [], notes = ''Done'',
            files = [\<lparr>name = ''code.js'', lang = ''javascript'',
                      content = '':pages/[id].tsx\<newline>export {}''\<rparr>]\<rparr>
   \<and> map (\<lambda>(b, g). file_of_block b) [(bracketName, [])]
       = [\<lparr>name = ''pages/[id].tsx'', lang = ''tsx'', content = ''export {}''\<rparr>]"
  by code_simp

text \<open>
  C4, amended: take a raw text whose files section (the region after the marker
  \<^verbatim>\<open>### 4.3. Code Files (Full & Unabridged)\<close>) is made of \<open>N\<close> blocks with text before, between
  and after them that holds no fence, each block correctly tagged: a language token of
  word characters (it may be empty), then no name token or a colon and a non-empty name
  token of word characters, dots, slashes, backslashes and hyphens, a line feed, a body
  that holds no line feed directly followed by a fence, a line feed and the closing fence.
  Then the scan of the files section yields exactly \<open>N\<close> files in source order, each with the
  language token of its block (\<^verbatim>\<open>text\<close> when the token is empty), its name token (\<^verbatim>\<open>untitled\<close>
  when there is none) and its body trimmed as content; and for \<open>N \<ge> 1\<close> these are the files
  that \<open>parseResponse\<close> returns. (For \<open>N = 0\<close> the last-resort path of C3 decides the files.)
\<close>

theorem C4_section_blocks:
  assumes "filesSection inp = Some (layout g0 bs)"
    and "\<forall>(b, g) \<in> set bs. well_tagged b \<and> cut_at fence g = None"
    and "cut_at fence g0 = None"
  shows "sectionFiles inp = Inr (map (\<lambda>(b, g). file_of_block b) bs)
         \<and> (bs \<noteq> [] \<longrightarrow>
              (\<exists>d. parseResponse inp = Inr d \<and> files d = map (\<lambda>(b, g). file_of_block b) bs))"
proof -
  from assms(1) codeBlocks_layout[OF assms(2,3)]
  have sf: "sectionFiles inp = Inr (map (\<lambda>(b, g). file_of_block b) bs)"
    by (simp add: sectionFiles_def)
  from parseResponse_files[OF sf] sf show ?thesis by auto
qed

definition twoBlocks :: string where
  "twoBlocks = ''### 4.3. Code Files (Full & Unabridged)\<newline>```html:index.html\<newline><h1>Hi</h1>\<newline>```\<newline>and `x`\<newline>```\<newline> plain \<newline>```\<newline>### 4.4. Notes\<newline>Done''"

theorem C4_section_blocks_witness:
  "\<exists>d. parseResponse twoBlocks = Inr d
     \<and> files d = [\<lparr>name = ''index.html'', lang = ''html'', content = ''<h1>Hi</h1>''\<rparr>,
                   \<lparr>name = ''untitled'', lang = ''text'', content = ''plain''\<rparr>]"
proof -
  let ?b1 = "\<lparr>tag_lang = ''html'', tag_name = Some ''index.html'', body = ''<h1>Hi</h1>''\<rparr>"
  let ?b2 = "\<lparr>tag_lang = [], tag_name = None, body = '' plain ''\<rparr>"
  let ?bs = "[(?b1, ''\<newline>and `x`\<newline>''), (?b2, [])]"
  have 1: "filesSection twoBlocks = Some (layout [] ?bs)" by code_simp
  have 2: "\<forall>(b, g) \<in> set ?bs. well_tagged b \<and> cut_at fence g = None" by code_simp
  have 3: "cut_at fence [] = None" by code_simp
  have 4: "?bs \<noteq> []" by simp
  have 5: "map (\<lambda>(b, g). file_of_block b) ?bs
           = [\<lparr>name = ''index.html'', lang = ''html'', content = ''<h1>Hi</h1>''\<rparr>,
              \<lparr>name = ''untitled'', lang = ''text'', content = ''plain''\<rparr>]"
    by code_simp
  from C4_section_blocks[OF 1 2 3] 4 5 show ?thesis by simp
qed

section \<open>Reading the reference pattern\<close>

text \<open>
  What \<open>refRegex\<close> matches at the start of a text, with plain list functions: an opener
  (\<^verbatim>\<open>href\<close> or \<^verbatim>\<open>src\<close>, the equals sign and a quote), then the value up to the next quote,
  which must be there and not come at once. The path it captures is the value without a
  leading \<^verbatim>\<open>./\<close> that has text after it.
\<close>

definition ref_quoted :: "string \<Rightarrow> string option" where
  "ref_quoted t =
     (case t of
        e # q # v \<Rightarrow> if e = CHR ''='' \<and> rx_quote q then Some v else None
      | _ \<Rightarrow> None)"

definition ref_open :: "string \<Rightarrow> (string \<times> string) option" where
  "ref_open s =
     (if prefix ''href'' s then map_option (Pair ''href'') (ref_quoted (drop 4 s))
      else if prefix ''src'' s then map_option (Pair ''src'') (ref_quoted (drop 3 s))
      else None)"

definition ref_path :: "string \<Rightarrow> string" where
  "ref_path v = (if prefix ''./'' v \<and> 2 < length v then drop 2 v else v)"

definition ref_value :: "string \<Rightarrow> (string \<times> string) option" where
  "ref_value v =
     (let val = takeWhile rx_not_quote v; r = dropWhile rx_not_quote v
      in if val = [] \<or> r = [] then None else Some (ref_path val, tl r))"

definition ref_at :: "string \<Rightarrow> (string \<times> string \<times> string) option" where
  "ref_at s =
     (case ref_open s of
        None \<Rightarrow> None
      | Some (a, v) \<Rightarrow> map_option (\<lambda>(p, rest). (a, p, rest)) (ref_value v))"

lemma quote_not: "rx_quote c \<longleftrightarrow> \<not> rx_not_quote c"
  by (simp add: rx_not_quote_def)

lemma value_tail:
  "rmatch (Seq (Grp 3 (Plus rx_not_quote)) (Cls rx_quote)) Some (s, c)
   = (if takeWhile rx_not_quote s = [] \<or> dropWhile rx_not_quote s = [] then None
      else Some (tl (dropWhile rx_not_quote s), c(3 := Some (takeWhile rx_not_quote s))))"
proof (cases s)
  case Nil
  then show ?thesis by (simp add: rmatch_Seq rmatch_Grp rmatch_Plus)
next
  case (Cons x xs)
  show ?thesis
  proof (cases "rx_not_quote x")
    case False
    with Cons show ?thesis by (simp add: rmatch_Seq rmatch_Grp rmatch_Plus)
  next
    case True
    let ?k = "\<lambda>s'. rmatch (Cls rx_quote) Some (s', c(3 := Some (take (length s - length s') s)))"
    have bf: "back_fail rx_not_quote ?k"
      by (simp add: back_fail_def rmatch_Cls quote_not)
    have "rmatch (Seq (Grp 3 (Plus rx_not_quote)) (Cls rx_quote)) Some (s, c)
          = star_g rx_not_quote ?k xs"
      using True Cons by (simp add: rmatch_Seq rmatch_Grp rmatch_Plus)
    also have "\<dots> = ?k (dropWhile rx_not_quote xs)" by (rule star_g_max[OF bf])
    finally have eq: "rmatch (Seq (Grp 3 (Plus rx_not_quote)) (Cls rx_quote)) Some (s, c)
          = ?k (dropWhile rx_not_quote xs)" .
    show ?thesis
    proof (cases "dropWhile rx_not_quote xs")
      case Nil
      with True Cons eq show ?thesis by (simp add: rmatch_Cls)
    next
      case (Cons q r)
      then have q: "rx_quote q"
        using hd_dropWhile[of rx_not_quote xs] by (simp add: quote_not)
      have "length s - length (q # r) = length (takeWhile rx_not_quote s)"
      proof -
        have "length s = length (takeWhile rx_not_quote s) + length (dropWhile rx_not_quote s)"
          by (metis length_append takeWhile_dropWhile_id)
        with True \<open>s = x # xs\<close> Cons show ?thesis by simp
      qed
      moreover have "take (length (takeWhile rx_not_quote s)) s = takeWhile rx_not_quote s"
        by (metis append_eq_conv_conj takeWhile_dropWhile_id)
      ultimately show ?thesis
        using True \<open>s = x # xs\<close> Cons q eq by (simp add: rmatch_Cls)
    qed
  qed
qed

lemma dot_slash_not_quote: "rx_not_quote (CHR ''.'')" "rx_not_quote (CHR ''/'')"
  by (simp_all add: rx_not_quote_def rx_quote_def)

lemma prefix_tail:
  "\<exists>c'. rmatch (Seq (Opt (Grp 2 (Alt (Lit ''./'') (Lit []))))
            (Seq (Grp 3 (Plus rx_not_quote)) (Cls rx_quote))) Some (v, c)
        = (case ref_value v of None \<Rightarrow> None | Some (p, rest) \<Rightarrow> Some (rest, c'(3 := Some p)))
      \<and> c' 1 = c 1"
proof -
  let ?V = "Seq (Grp 3 (Plus rx_not_quote)) (Cls rx_quote)"
  let ?O = "Opt (Grp 2 (Alt (Lit ''./'') (Lit [])))"
  have unfold: "rmatch (Seq ?O ?V) Some (v, c)
        = (case (if prefix ''./'' v then rmatch ?V Some (drop 2 v, c(2 := Some ''./'')) else None) of
             Some x \<Rightarrow> Some x
           | None \<Rightarrow> rmatch ?V Some (v, c))"
  proof (cases "prefix ''./'' v")
    case True
    then obtain w where "v = ''./'' @ w" by (auto simp: prefix_def)
    then show ?thesis
      by (simp add: rmatch_Seq[of ?O] rmatch_Opt rmatch_Grp rmatch_Alt rmatch_Lit
          split: option.splits)
  next
    case False
    then show ?thesis
      by (simp add: rmatch_Seq[of ?O] rmatch_Opt rmatch_Grp rmatch_Alt rmatch_Lit)
  qed
  show ?thesis
  proof (cases "prefix ''./'' v")
    case False
    then have "rmatch (Seq ?O ?V) Some (v, c) = rmatch ?V Some (v, c)"
      unfolding unfold by simp
    moreover from False have "\<not> prefix ''./'' (takeWhile rx_not_quote v)"
      by (metis prefix_order.trans takeWhile_dropWhile_id prefixI)
    ultimately have "rmatch (Seq ?O ?V) Some (v, c)
        = (case ref_value v of None \<Rightarrow> None | Some (p, rest) \<Rightarrow> Some (rest, c(3 := Some p)))"
      unfolding value_tail by (simp add: ref_value_def ref_path_def Let_def)
    then show ?thesis by blast
  next
    case True
    then obtain w where w: "v = ''./'' @ w" by (auto simp: prefix_def)
    have tw: "takeWhile rx_not_quote v = ''./'' @ takeWhile rx_not_quote w"
      and dw: "dropWhile rx_not_quote v = dropWhile rx_not_quote w"
      using dot_slash_not_quote by (simp_all add: w)
    have d2: "drop 2 v = w" by (simp add: w)
    show ?thesis
    proof (cases "takeWhile rx_not_quote w = [] \<or> dropWhile rx_not_quote w = []")
      case True
      then have "rmatch (Seq ?O ?V) Some (v, c) = rmatch ?V Some (v, c)"
        unfolding unfold d2 value_tail using \<open>prefix ''./'' v\<close> by auto
      moreover from True have "ref_path (takeWhile rx_not_quote v) = takeWhile rx_not_quote v
          \<or> dropWhile rx_not_quote v = []"
        by (auto simp: tw dw ref_path_def)
      ultimately have "rmatch (Seq ?O ?V) Some (v, c)
        = (case ref_value v of None \<Rightarrow> None | Some (p, rest) \<Rightarrow> Some (rest, c(3 := Some p)))"
        unfolding value_tail by (auto simp: ref_value_def Let_def)
      then show ?thesis by blast
    next
      case False
      then have "rmatch (Seq ?O ?V) Some (v, c)
          = Some (tl (dropWhile rx_not_quote w), c(2 := Some ''./'', 3 := Some (takeWhile rx_not_quote w)))"
        unfolding unfold d2 value_tail using \<open>prefix ''./'' v\<close> by auto
      moreover from False have "ref_value v
          = Some (takeWhile rx_not_quote w, tl (dropWhile rx_not_quote w))"
        by (simp add: ref_value_def Let_def tw dw ref_path_def)
      moreover have "(c(2 := Some ''./'')) 1 = c 1" by simp
      ultimately show ?thesis by (intro exI[of _ "c(2 := Some ''./'')"]) simp
    qed
  qed
qed

lemma attr_group:
  "rmatch (Grp 1 (Alt (Lit ''href'') (Lit ''src''))) k (s, c)
   = (if prefix ''href'' s then k (drop 4 s, c(1 := Some ''href''))
      else if prefix ''src'' s then k (drop 3 s, c(1 := Some ''src''))
      else None)"
proof (cases "prefix ''href'' s")
  case True
  then obtain t where "s = ''href'' @ t" by (auto simp: prefix_def)
  then show ?thesis
    by (simp add: rmatch_Grp rmatch_Alt rmatch_Lit split: option.splits)
next
  case False
  show ?thesis
  proof (cases "prefix ''src'' s")
    case True
    then obtain t where "s = ''src'' @ t" by (auto simp: prefix_def)
    then show ?thesis
      by (simp add: rmatch_Grp rmatch_Alt rmatch_Lit split: option.splits)
  next
    case nosrc: False
    with False show ?thesis by (simp add: rmatch_Grp rmatch_Alt rmatch_Lit)
  qed
qed

lemma quoted_tail:
  "rmatch (Seq (Lit ''='') (Seq (Cls rx_quote) T)) Some (t, c)
   = (case ref_quoted t of None \<Rightarrow> None | Some v \<Rightarrow> rmatch T Some (v, c))"
proof (cases t)
  case Nil
  then show ?thesis by (simp add: rmatch_Seq rmatch_Lit ref_quoted_def)
next
  case (Cons e t')
  then show ?thesis
    by (cases t') (auto simp: rmatch_Seq rmatch_Lit rmatch_Cls ref_quoted_def)
qed

lemma rmatch_ref:
  "\<exists>c'. rmatch refRegex Some (s, no_captures)
      = (case ref_at s of None \<Rightarrow> None
         | Some (a, p, rest) \<Rightarrow> Some (rest, c'(1 := Some a, 3 := Some p)))"
proof -
  let ?T = "Seq (Opt (Grp 2 (Alt (Lit ''./'') (Lit []))))
            (Seq (Grp 3 (Plus rx_not_quote)) (Cls rx_quote))"
  let ?K = "Seq (Lit ''='') (Seq (Cls rx_quote) ?T)"
  have R: "refRegex = Seq (Grp 1 (Alt (Lit ''href'') (Lit ''src''))) ?K"
    unfolding refRegex_def by (simp only: seqs.simps)
  have step: "\<exists>c'. rmatch ?K Some (t, no_captures(1 := Some a))
      = (case ref_quoted t of None \<Rightarrow> None
         | Some v \<Rightarrow> (case ref_value v of None \<Rightarrow> None
                      | Some (p, rest) \<Rightarrow> Some (rest, c'(1 := Some a, 3 := Some p))))" for t a
  proof (cases "ref_quoted t")
    case None
    then show ?thesis unfolding quoted_tail by simp
  next
    case (Some v)
    from prefix_tail[of v "no_captures(1 := Some a)"] obtain c' where
      c': "rmatch ?T Some (v, no_captures(1 := Some a))
           = (case ref_value v of None \<Rightarrow> None | Some (p, rest) \<Rightarrow> Some (rest, c'(3 := Some p)))"
      "c' 1 = Some a" by auto
    from c'(2) have same: "c'(1 := Some a) = c'" by auto
    show ?thesis
    proof (cases "ref_value v")
      case None
      with c'(1) Some show ?thesis unfolding quoted_tail by simp
    next
      case (Some pr)
      obtain p rest where "pr = (p, rest)" by (cases pr)
      with c'(1) Some \<open>ref_quoted t = Some v\<close> same show ?thesis
        unfolding quoted_tail by (intro exI[of _ c']) simp
    qed
  qed
  have combine: ?thesis
    if pre: "ref_open s = map_option (Pair a) (ref_quoted t)"
      and lhs: "rmatch refRegex Some (s, no_captures) = rmatch ?K Some (t, no_captures(1 := Some a))"
    for a t
  proof -
    from step[of t a] obtain c' where
      c': "rmatch ?K Some (t, no_captures(1 := Some a))
      = (case ref_quoted t of None \<Rightarrow> None
         | Some v \<Rightarrow> (case ref_value v of None \<Rightarrow> None
                      | Some (p, rest) \<Rightarrow> Some (rest, c'(1 := Some a, 3 := Some p))))" by blast
    have "(case ref_at s of None \<Rightarrow> None
           | Some (a, p, rest) \<Rightarrow> Some (rest, c'(1 := Some a, 3 := Some p)))
        = (case ref_quoted t of None \<Rightarrow> None
           | Some v \<Rightarrow> (case ref_value v of None \<Rightarrow> None
                      | Some (p, rest) \<Rightarrow> Some (rest, c'(1 := Some a, 3 := Some p))))"
      unfolding ref_at_def pre by (auto split: option.splits)
    with c' lhs show ?thesis by (intro exI[of _ c']) simp
  qed
  show ?thesis
  proof (cases "prefix ''href'' s")
    case True
    show ?thesis
    proof (rule combine)
      show "ref_open s = map_option (Pair ''href'') (ref_quoted (drop 4 s))"
        using True by (simp add: ref_open_def)
      show "rmatch refRegex Some (s, no_captures)
            = rmatch ?K Some (drop 4 s, no_captures(1 := Some ''href''))"
        unfolding R rmatch_Seq[of "Grp 1 (Alt (Lit ''href'') (Lit ''src''))"] attr_group
        using True by simp
    qed
  next
    case False
    show ?thesis
    proof (cases "prefix ''src'' s")
      case True
      show ?thesis
      proof (rule combine)
        show "ref_open s = map_option (Pair ''src'') (ref_quoted (drop 3 s))"
          using True False by (simp add: ref_open_def)
        show "rmatch refRegex Some (s, no_captures)
              = rmatch ?K Some (drop 3 s, no_captures(1 := Some ''src''))"
          unfolding R rmatch_Seq[of "Grp 1 (Alt (Lit ''href'') (Lit ''src''))"] attr_group
          using True False by simp
      qed
    next
      case nosrc: False
      with False show ?thesis
        unfolding R rmatch_Seq[of "Grp 1 (Alt (Lit ''href'') (Lit ''src''))"] attr_group
        by (simp add: ref_at_def ref_open_def)
    qed
  qed
qed

lemma match_here_ref_None: "ref_at s = None \<Longrightarrow> match_here refRegex s = None"
  using rmatch_ref[of s] by (auto simp: match_here_def)

lemma match_here_ref_Some:
  assumes "ref_at s = Some (a, p, rest)"
  shows "\<exists>c. match_here refRegex s
              = Some \<lparr>preceding = [], matched = take (length s - length rest) s,
                      groups = c, following = rest\<rparr>
            \<and> c 1 = Some a \<and> c 3 = Some p"
proof -
  from rmatch_ref[of s] assms obtain c' where
    "rmatch refRegex Some (s, no_captures) = Some (rest, c'(1 := Some a, 3 := Some p))"
    by auto
  then show ?thesis
    by (intro exI[of _ "c'(1 := Some a, 3 := Some p)"]) (simp add: match_here_def)
qed

lemma ref_open_parts:
  assumes "ref_open s = Some (a, v)"
  shows "\<exists>q. s = a @ ''='' @ [q] @ v \<and> rx_quote q \<and> (a = ''href'' \<or> a = ''src'')"
proof -
  have q: "\<exists>q. t = ''='' @ [q] @ v \<and> rx_quote q" if "ref_quoted t = Some v" for t
    using that by (auto simp: ref_quoted_def split: list.splits if_splits)
  show ?thesis
  proof (cases "prefix ''href'' s")
    case True
    then obtain t where t: "s = ''href'' @ t" by (auto simp: prefix_def)
    with assms True have "ref_quoted t = Some v" "a = ''href''"
      by (auto simp: ref_open_def)
    with q[of t] t show ?thesis by auto
  next
    case False
    with assms have src: "prefix ''src'' s" by (auto simp: ref_open_def split: if_splits)
    then obtain t where t: "s = ''src'' @ t" by (auto simp: prefix_def)
    with assms False src have "ref_quoted t = Some v" "a = ''src''"
      by (auto simp: ref_open_def)
    with q[of t] t show ?thesis by auto
  qed
qed

lemma ref_value_parts:
  assumes "ref_value v = Some (p, rest)"
  shows "\<exists>val q2. v = val @ [q2] @ rest \<and> rx_quote q2 \<and> val \<noteq> []
           \<and> list_all rx_not_quote val \<and> p = ref_path val"
proof -
  let ?val = "takeWhile rx_not_quote v" and ?r = "dropWhile rx_not_quote v"
  from assms have ne: "?val \<noteq> []" "?r \<noteq> []" and p: "p = ref_path ?val" and rest: "rest = tl ?r"
    by (auto simp: ref_value_def Let_def split: if_splits)
  from ne(2) have "rx_quote (hd ?r)" using hd_dropWhile[of rx_not_quote v] by (simp add: quote_not)
  moreover from ne(2) rest have "v = ?val @ [hd ?r] @ rest"
    by (metis append_Cons append_Nil hd_Cons_tl takeWhile_dropWhile_id)
  moreover have "list_all rx_not_quote ?val"
    by (simp add: list_all_iff) (meson set_takeWhileD)
  ultimately show ?thesis using ne(1) p by blast
qed

lemma ref_at_parts:
  assumes "ref_at s = Some (a, p, rest)"
  shows "\<exists>q val q2. s = a @ ''='' @ [q] @ val @ [q2] @ rest \<and> rx_quote q \<and> rx_quote q2
           \<and> val \<noteq> [] \<and> list_all rx_not_quote val \<and> p = ref_path val
           \<and> (a = ''href'' \<or> a = ''src'')"
proof -
  from assms obtain v where o: "ref_open s = Some (a, v)" and v: "ref_value v = Some (p, rest)"
    by (auto simp: ref_at_def split: option.splits)
  from ref_open_parts[OF o] obtain q where
    q: "s = a @ ''='' @ [q] @ v" "rx_quote q" "a = ''href'' \<or> a = ''src''" by blast
  from ref_value_parts[OF v] obtain val q2 where
    "v = val @ [q2] @ rest" "rx_quote q2" "val \<noteq> []" "list_all rx_not_quote val" "p = ref_path val"
    by blast
  with q show ?thesis by blast
qed

lemma ref_value_complete:
  assumes "rx_quote q2" "val \<noteq> []" "list_all rx_not_quote val"
  shows "ref_value (val @ [q2] @ rest) = Some (ref_path val, rest)"
proof -
  from assms(1) have nq: "\<not> rx_not_quote q2" by (simp add: quote_not)
  from assms(3) have all: "\<forall>c \<in> set val. rx_not_quote c" by (simp add: list_all_iff)
  have "takeWhile rx_not_quote (val @ q2 # rest) = val"
    using takeWhile_append2[of val rx_not_quote "q2 # rest"] all nq by simp
  moreover have "dropWhile rx_not_quote (val @ q2 # rest) = q2 # rest"
    using dropWhile_append2[of val rx_not_quote "q2 # rest"] all nq by simp
  ultimately show ?thesis using assms(2) by (simp add: ref_value_def Let_def)
qed

lemma ref_open_complete:
  assumes "a = ''href'' \<or> a = ''src''" "rx_quote q"
  shows "ref_open (a @ ''='' @ [q] @ v) = Some (a, v)"
  using assms by (auto simp: ref_open_def ref_quoted_def)

lemma ref_at_complete:
  assumes "a = ''href'' \<or> a = ''src''" "rx_quote q" "rx_quote q2" "val \<noteq> []"
    "list_all rx_not_quote val"
  shows "ref_at (a @ ''='' @ [q] @ val @ [q2] @ rest) = Some (a, ref_path val, rest)"
  unfolding ref_at_def ref_open_complete[OF assms(1,2)] using ref_value_complete[OF assms(3-5)]
  by simp

lemma ref_at_shorter: "ref_at s = Some (a, p, rest) \<Longrightarrow> length rest < length s"
  by (drule ref_at_parts) auto

lemma ref_at_Nil [simp]: "ref_at [] = None"
  by (simp add: ref_at_def ref_open_def)

subsection \<open>The rewriter as a scan\<close>

text \<open>
  \<open>ref_out\<close> is the callback of the replacement (lines 100--107) on the attribute, the
  path and the matched text; \<open>rw\<close> scans the document from the left, replaces a reference
  where one starts and moves one character on where none does. It is what the global
  replacement with \<open>refRegex\<close> computes (\<open>rewriteRefs_rw\<close>).
\<close>

definition ref_out :: "(string \<rightharpoonup> string) \<Rightarrow> string \<Rightarrow> string \<Rightarrow> string \<Rightarrow> string" where
  \<open>ref_out tbl a p m =
     (case tbl (if prefix ''/'' p then drop 1 p else p) of
        Some u \<Rightarrow> a @ ''="'' @ u @ ''"''
      | None \<Rightarrow> m)\<close>

function rw :: "(string \<rightharpoonup> string) \<Rightarrow> string \<Rightarrow> string" where
  "rw tbl [] = []"
| "rw tbl (x # xs) =
     (case ref_at (x # xs) of
        None \<Rightarrow> x # rw tbl xs
      | Some (a, p, rest) \<Rightarrow>
          ref_out tbl a p (take (length (x # xs) - length rest) (x # xs)) @ rw tbl rest)"
  by pat_completeness auto
termination
  by (relation "measure (\<lambda>(tbl, s). length s)") (auto dest: ref_at_shorter)

lemma replaceAll_skip:
  assumes "match_here r (x # xs) = None"
    and "\<And>m. f (m\<lparr>preceding := x # preceding m\<rparr>) = f m"
  shows "replaceAll r f (x # xs) = bind_r (replaceAll r f xs) (\<lambda>t. Inr (x # t))"
proof (cases "rx_exec r xs")
  case None
  with assms(1) show ?thesis
    by (subst replaceAll.simps, subst (2) replaceAll.simps) (simp add: bind_r_def)
next
  case (Some m)
  with assms show ?thesis
    by (subst replaceAll.simps, subst (2) replaceAll.simps)
       (auto simp: bind_r_def split: sum.splits list.splits)
qed

lemma replaceRef_preceding: "replaceRef tbl (m\<lparr>preceding := z\<rparr>) = replaceRef tbl m"
  by (auto simp: replaceRef_def Let_def split: option.splits)

lemma rewriteRefs_rw: "rewriteRefs tbl s = Inr (rw tbl s)"
proof (induction tbl s rule: rw.induct)
  case (1 tbl)
  have "rx_exec refRegex [] = None" by (simp add: match_here_ref_None)
  then show ?case unfolding rewriteRefs_def by (subst replaceAll.simps) simp
next
  case (2 tbl x xs)
  show ?case
  proof (cases "ref_at (x # xs)")
    case None
    from match_here_ref_None[OF None] replaceRef_preceding
    have "replaceAll refRegex (replaceRef tbl) (x # xs)
          = bind_r (replaceAll refRegex (replaceRef tbl) xs) (\<lambda>t. Inr (x # t))"
      by (intro replaceAll_skip) auto
    with "2.IH"(1)[OF None] None show ?thesis
      unfolding rewriteRefs_def by (simp add: bind_r_def)
  next
    case (Some t)
    obtain a p rest where t: "t = (a, p, rest)" by (cases t)
    let ?m = "take (length (x # xs) - length rest) (x # xs)"
    from match_here_ref_Some[of "x # xs" a p rest] Some t obtain c where
      c: "match_here refRegex (x # xs)
              = Some \<lparr>preceding = [], matched = ?m, groups = c, following = rest\<rparr>"
        "c 1 = Some a" "c 3 = Some p" by auto
    from ref_at_shorter Some t have lt: "length rest < length (x # xs)" by blast
    have rep: "replaceRef tbl \<lparr>preceding = [], matched = ?m, groups = c, following = rest\<rparr>
               = Inr (ref_out tbl a p ?m)"
      using c(2,3)
      by (auto simp: replaceRef_def ref_out_def js_to_string_def startsWith_def Let_def
           split: option.splits)
    from "2.IH"(2)[OF Some[unfolded t] refl refl]
    have ih: "replaceAll refRegex (replaceRef tbl) rest = Inr (rw tbl rest)"
      by (simp add: rewriteRefs_def)
    have ex: "rx_exec refRegex (x # xs)
              = Some \<lparr>preceding = [], matched = ?m, groups = c, following = rest\<rparr>"
      using c(1) by simp
    have "replaceAll refRegex (replaceRef tbl) (x # xs) = Inr (ref_out tbl a p ?m @ rw tbl rest)"
      apply (subst replaceAll.simps)
      apply (subst ex)
      apply (simp only: option.case rx_match.simps)
      apply (simp only: rep ih)
      apply (insert lt)
      apply (simp add: bind_r_def)
      done
    then show ?thesis
      unfolding rewriteRefs_def by (simp add: Some t)
  qed
qed

subsection \<open>Splitting the document at a reference\<close>

text \<open>
  A text leaves an opener unterminated when its last quote directly follows \<^verbatim>\<open>href=\<close> or
  \<^verbatim>\<open>src=\<close>: a match of the pattern could start there and run on into what follows.
  \<open>ref_key\<close> is the key under which the callback looks a value up: the value without a
  leading \<^verbatim>\<open>./\<close> (dropped by the pattern only when text follows it), then without a leading
  slash.
\<close>

definition open_ref :: "string \<Rightarrow> bool" where
  "open_ref s =
     (case dropWhile rx_not_quote (rev s) of
        [] \<Rightarrow> False
      | q # b \<Rightarrow> suffix ''href='' (rev b) \<or> suffix ''src='' (rev b))"

definition ref_key :: "string \<Rightarrow> string" where
  "ref_key v = (let p = ref_path v in if startsWith p ''/'' then drop 1 p else p)"

lemma open_ref_iff:
  "open_ref s \<longleftrightarrow>
     (\<exists>b q v. s = b @ [q] @ v \<and> rx_quote q \<and> list_all rx_not_quote v
              \<and> (suffix ''href='' b \<or> suffix ''src='' b))"
proof
  assume "open_ref s"
  then obtain q rb where d: "dropWhile rx_not_quote (rev s) = q # rb"
    and sf: "suffix ''href='' (rev rb) \<or> suffix ''src='' (rev rb)"
    by (auto simp: open_ref_def split: list.splits)
  from d have q: "rx_quote q" using hd_dropWhile[of rx_not_quote "rev s"] by (simp add: quote_not)
  have "rev s = takeWhile rx_not_quote (rev s) @ q # rb"
    using d takeWhile_dropWhile_id[of rx_not_quote "rev s"] by simp
  then have "s = rev rb @ [q] @ rev (takeWhile rx_not_quote (rev s))"
    by (metis append_Cons append_Nil rev.simps(2) rev_append rev_rev_ident append.assoc)
  moreover have "list_all rx_not_quote (rev (takeWhile rx_not_quote (rev s)))"
    by (simp add: list_all_iff) (meson set_takeWhileD)
  ultimately show "\<exists>b q v. s = b @ [q] @ v \<and> rx_quote q \<and> list_all rx_not_quote v
              \<and> (suffix ''href='' b \<or> suffix ''src='' b)"
    using q sf by blast
next
  assume "\<exists>b q v. s = b @ [q] @ v \<and> rx_quote q \<and> list_all rx_not_quote v
              \<and> (suffix ''href='' b \<or> suffix ''src='' b)"
  then obtain b q v where s: "s = b @ [q] @ v" and q: "rx_quote q"
    and v: "list_all rx_not_quote v" and sf: "suffix ''href='' b \<or> suffix ''src='' b"
    by blast
  from v have "\<forall>c \<in> set (rev v). rx_not_quote c" by (simp add: list_all_iff)
  moreover from q have "\<not> rx_not_quote q" by (simp add: quote_not)
  ultimately have "dropWhile rx_not_quote (rev v @ q # rev b) = q # rev b"
    using dropWhile_append2[of "rev v" rx_not_quote "q # rev b"] by simp
  with s sf show "open_ref s" by (simp add: open_ref_def)
qed

lemma open_ref_prepend: "open_ref r \<Longrightarrow> open_ref (a @ r)"
proof -
  assume "open_ref r"
  then obtain b q v where "r = b @ [q] @ v" "rx_quote q" "list_all rx_not_quote v"
    "suffix ''href='' b \<or> suffix ''src='' b"
    unfolding open_ref_iff by blast
  then have "a @ r = (a @ b) @ [q] @ v \<and> rx_quote q \<and> list_all rx_not_quote v
       \<and> (suffix ''href='' (a @ b) \<or> suffix ''src='' (a @ b))"
    by (auto simp: suffix_append)
  then show ?thesis unfolding open_ref_iff by blast
qed

lemma hd_in_tl: "l = s @ us \<Longrightarrow> s \<noteq> [] \<Longrightarrow> us \<noteq> [] \<Longrightarrow> hd us \<in> set (tl l)"
  by (cases s) auto

lemma ref_at_ext_None:
  assumes "s \<noteq> []" "ref_at s = None" "\<not> open_ref s"
    and t: "t = [] \<or> hd t = CHR ''h'' \<or> hd t = CHR ''s''"
  shows "ref_at (s @ t) = None"
proof (rule ccontr)
  assume "ref_at (s @ t) \<noteq> None"
  then obtain a p rest where "ref_at (s @ t) = Some (a, p, rest)" by auto
  from ref_at_parts[OF this] obtain q val q2 where
    eq: "s @ t = (a @ ''='' @ [q]) @ val @ [q2] @ rest" and q: "rx_quote q" "rx_quote q2"
    and val: "val \<noteq> []" "list_all rx_not_quote val" and a: "a = ''href'' \<or> a = ''src''"
    by auto
  define opn where "opn = a @ ''='' @ [q]"
  define W where "W = val @ [q2] @ rest"
  define R2 where "R2 = [q2] @ rest"
  from a have sfx: "suffix ''href='' (a @ ''='') \<or> suffix ''src='' (a @ ''='')" by auto
  from eq have eq': "s @ t = opn @ W" by (simp add: opn_def W_def)
  have W: "W = val @ R2" by (simp add: W_def R2_def)
  from eq' consider (inside) us where "s = opn @ us" "us @ t = W"
    | (straddle) us where "s @ us = opn" "t = us @ W"
    by (auto simp: append_eq_append_conv2)
  then show False
  proof cases
    case inside
    from inside(2) W consider (closed) us' where "us = val @ us'" "us' @ t = R2"
      | (unclosed) us'' where "us @ us'' = val"
      by (auto simp: append_eq_append_conv2)
    then show False
    proof cases
      case closed
      show False
      proof (cases us')
        case Nil
        with closed inside(1) have "s = (a @ ''='') @ [q] @ val" by (simp add: opn_def)
        with q(1) val(2) sfx have "open_ref s" unfolding open_ref_iff by blast
        with assms(3) show False by simp
      next
        case (Cons c cs)
        with closed(2) have "c = q2" by (simp add: R2_def)
        with Cons closed(1) inside(1) have "s = a @ ''='' @ [q] @ val @ [q2] @ cs"
          by (simp add: opn_def)
        with ref_at_complete[OF a q val, of cs] assms(2) show False by simp
      qed
    next
      case unclosed
      with val(2) have "list_all rx_not_quote us" by (auto simp: list_all_iff)
      moreover from inside(1) have "s = (a @ ''='') @ [q] @ us" by (simp add: opn_def)
      ultimately have "open_ref s" using q(1) sfx unfolding open_ref_iff by blast
      with assms(3) show False by simp
    qed
  next
    case straddle
    show False
    proof (cases us)
      case Nil
      with straddle(1) have "s = (a @ ''='') @ [q] @ []" by (simp add: opn_def)
      moreover have "list_all rx_not_quote []" by simp
      ultimately have "open_ref s" using q(1) sfx unfolding open_ref_iff by blast
      with assms(3) show False by simp
    next
      case (Cons c cs)
      with straddle(2) have ht: "t \<noteq> []" "hd t = c" by auto
      from straddle(1)[symmetric] assms(1) Cons have "hd us \<in> set (tl opn)"
        by (intro hd_in_tl) auto
      with Cons have "c \<in> set (tl (a @ ''='' @ [q]))" by (simp add: opn_def)
      with a have "c \<in> set ''ref='' \<or> c \<in> set ''rc='' \<or> c = q" by auto
      moreover from q(1) have "q \<noteq> CHR ''h''" "q \<noteq> CHR ''s''" by (auto simp: rx_quote_def)
      ultimately have "c \<noteq> CHR ''h'' \<and> c \<noteq> CHR ''s''" by auto
      with ht t show False by simp
    qed
  qed
qed

lemma ref_at_ext_Some:
  assumes "ref_at s = Some (a, p, rest)"
  shows "ref_at (s @ t) = Some (a, p, rest @ t)"
    and "take (length (s @ t) - length (rest @ t)) (s @ t) = take (length s - length rest) s"
proof -
  from ref_at_parts[OF assms] obtain q val q2 where
    eq: "s = a @ ''='' @ [q] @ val @ [q2] @ rest" and q: "rx_quote q" "rx_quote q2"
    and val: "val \<noteq> []" "list_all rx_not_quote val" and p: "p = ref_path val"
    and a: "a = ''href'' \<or> a = ''src''"
    by auto
  from ref_at_complete[OF a q val, of "rest @ t"] eq p
  show "ref_at (s @ t) = Some (a, p, rest @ t)" by simp
  from eq have "length rest \<le> length s" by simp
  then show "take (length (s @ t) - length (rest @ t)) (s @ t) = take (length s - length rest) s"
    by simp
qed

lemma rw_append:
  assumes "\<not> open_ref pre" "t = [] \<or> hd t = CHR ''h'' \<or> hd t = CHR ''s''"
  shows "rw tbl (pre @ t) = rw tbl pre @ rw tbl t"
using assms(1) proof (induction tbl pre rule: rw.induct)
  case (1 tbl)
  show ?case by simp
next
  case (2 tbl x xs)
  show ?case
  proof (cases "ref_at (x # xs)")
    case None
    from ref_at_ext_None[OF _ None "2.prems" assms(2)]
    have ext: "ref_at (x # xs @ t) = None" by simp
    from "2.prems" open_ref_prepend[of xs "[x]"] have "\<not> open_ref xs" by auto
    from "2.IH"(1)[OF None this] None ext show ?thesis by simp
  next
    case (Some r)
    obtain a p rest where r: "r = (a, p, rest)" by (cases r)
    from Some r have at: "ref_at (x # xs) = Some (a, p, rest)" by simp
    from ref_at_parts[OF at] obtain m where m: "x # xs = m @ rest" by auto
    with "2.prems" open_ref_prepend[of rest m] have no: "\<not> open_ref rest" by auto
    from ref_at_ext_Some[OF at, of t]
    have ext: "ref_at (x # xs @ t) = Some (a, p, rest @ t)"
      and tk: "take (length (x # xs @ t) - length (rest @ t)) (x # xs @ t)
               = take (length (x # xs) - length rest) (x # xs)"
      by simp_all
    from "2.IH"(2)[OF at refl refl no]
    have ih: "rw tbl (rest @ t) = rw tbl rest @ rw tbl t" .
    have "rw tbl (x # xs @ t)
          = ref_out tbl a p (take (length (x # xs @ t) - length (rest @ t)) (x # xs @ t))
            @ rw tbl (rest @ t)"
      by (simp add: ext)
    also have "\<dots> = ref_out tbl a p (take (length (x # xs) - length rest) (x # xs))
            @ rw tbl rest @ rw tbl t"
      by (simp only: tk ih)
    also have "\<dots> = rw tbl (x # xs) @ rw tbl t"
      by (simp add: at)
    finally show ?thesis by simp
  qed
qed

lemma rw_complete_ref:
  assumes "a = ''href'' \<or> a = ''src''" "rx_quote q" "rx_quote q2" "val \<noteq> []"
    "list_all rx_not_quote val"
  shows "rw tbl (a @ ''='' @ [q] @ val @ [q2] @ rest)
         = ref_out tbl a (ref_path val) (a @ ''='' @ [q] @ val @ [q2]) @ rw tbl rest"
proof -
  let ?s = "a @ ''='' @ [q] @ val @ [q2] @ rest"
  from assms(1) obtain x xs where xs: "?s = x # xs" by (cases ?s) auto
  have at: "ref_at ?s = Some (a, ref_path val, rest)" by (rule ref_at_complete[OF assms])
  define M where "M = a @ ''='' @ [q] @ val @ [q2]"
  have sM: "?s = M @ rest" by (simp add: M_def)
  have "take (length ?s - length rest) ?s = M" unfolding sM by simp
  with at show ?thesis unfolding xs M_def by simp
qed

subsection \<open>A position with no reference stays one\<close>

lemma rw_None: "ref_at (x # xs) = None \<Longrightarrow> rw tbl (x # xs) = x # rw tbl xs"
  by simp

lemma rw_Some:
  "ref_at (x # xs) = Some (a, p, rest) \<Longrightarrow>
   rw tbl (x # xs) = ref_out tbl a p (take (length (x # xs) - length rest) (x # xs)) @ rw tbl rest"
  by simp

declare rw.simps(2) [simp del]

lemma rw_first_quote:
  "takeWhile rx_not_quote (rw tbl y) = takeWhile rx_not_quote y
   \<and> (dropWhile rx_not_quote (rw tbl y) = [] \<longleftrightarrow> dropWhile rx_not_quote y = [])"
proof (induction tbl y rule: rw.induct)
  case (1 tbl)
  show ?case by simp
next
  case (2 tbl x xs)
  show ?case
  proof (cases "ref_at (x # xs)")
    case None
    with "2.IH"(1)[OF None] show ?thesis by (simp add: rw_None)
  next
    case (Some r)
    obtain a p rest where r: "r = (a, p, rest)" by (cases r)
    from Some r have at: "ref_at (x # xs) = Some (a, p, rest)" by simp
    from ref_at_parts[OF at] obtain q val q2 where
      eq: "x # xs = a @ ''='' @ [q] @ val @ [q2] @ rest" and q: "rx_quote q"
      and a: "a = ''href'' \<or> a = ''src''"
      by auto
    define M where "M = take (length (x # xs) - length rest) (x # xs)"
    have M: "M = (a @ ''='') @ q # val @ [q2]"
    proof -
      define M0 where "M0 = (a @ ''='') @ q # val @ [q2]"
      from eq have "x # xs = M0 @ rest" by (simp add: M0_def)
      then have "M = take (length (M0 @ rest) - length rest) (M0 @ rest)"
        unfolding M_def by simp
      then have "M = M0" by simp
      then show ?thesis unfolding M0_def .
    qed
    have nq: "\<forall>c \<in> set (a @ ''=''). rx_not_quote c"
      using a by (auto simp: rx_not_quote_def rx_quote_def)
    have dq: "\<not> rx_not_quote (CHR ''\"'')" by (simp add: rx_not_quote_def rx_quote_def)
    from q have nqq: "\<not> rx_not_quote q" by (simp add: quote_not)
    have out: "\<exists>q' z. ref_out tbl a p M = (a @ ''='') @ q' # z \<and> \<not> rx_not_quote q'"
    proof (cases "tbl (if prefix ''/'' p then drop 1 p else p)")
      case None
      with M nqq show ?thesis by (auto simp: ref_out_def)
    next
      case (Some u)
      then have "ref_out tbl a p M = (a @ ''='') @ CHR ''\"'' # u @ [CHR ''\"'']"
        by (simp add: ref_out_def)
      with dq show ?thesis by blast
    qed
    then obtain q' z where o: "ref_out tbl a p M = (a @ ''='') @ q' # z" "\<not> rx_not_quote q'"
      by blast
    have rwx: "rw tbl (x # xs) = (a @ ''='') @ q' # (z @ rw tbl rest)"
      using o(1) unfolding rw_Some[OF at] M_def by simp
    have xs': "x # xs = (a @ ''='') @ q # (val @ [q2] @ rest)" using eq by simp
    have 1: "takeWhile rx_not_quote ((a @ ''='') @ q' # w) = a @ ''=''"
      and 2: "dropWhile rx_not_quote ((a @ ''='') @ q' # w) = q' # w" for w
      using takeWhile_append2[of "a @ ''=''" rx_not_quote "q' # w"]
        dropWhile_append2[of "a @ ''=''" rx_not_quote "q' # w"] nq o(2) by simp_all
    have 3: "takeWhile rx_not_quote ((a @ ''='') @ q # w) = a @ ''=''"
      and 4: "dropWhile rx_not_quote ((a @ ''='') @ q # w) = q # w" for w
      using takeWhile_append2[of "a @ ''=''" rx_not_quote "q # w"]
        dropWhile_append2[of "a @ ''=''" rx_not_quote "q # w"] nq nqq by simp_all
    show ?thesis
      apply (simp only: rwx)
      apply (simp only: xs' 1 2 3 4)
      apply simp
      done
  qed
qed

lemma ref_at_other_start:
  assumes "x \<noteq> CHR ''h''" "x \<noteq> CHR ''s''"
  shows "ref_at (x # z) = None"
  using assms by (simp add: ref_at_def ref_open_def)

lemma rw_other_start:
  assumes "x \<noteq> CHR ''h''" "x \<noteq> CHR ''s''"
  shows "rw tbl (x # z) = x # rw tbl z"
  using ref_at_other_start[OF assms] by (rule rw_None)

lemma rw_quote_start: "rx_quote q \<Longrightarrow> rw tbl (q # z) = q # rw tbl z"
  by (rule rw_other_start) (auto simp: rx_quote_def)

lemma rw_after_attr:
  assumes "a = ''href'' \<or> a = ''src''" "rx_quote q"
  shows "rw tbl (tl (a @ ''='') @ q # V) = tl (a @ ''='') @ q # rw tbl V"
  using assms(1) rw_quote_start[OF assms(2)] by (auto simp: rw_other_start)

lemma ref_at_rewritten_tail:
  assumes "ref_at (x # xs) = None"
  shows "ref_at (x # rw tbl xs) = None"
proof (rule ccontr)
  assume "ref_at (x # rw tbl xs) \<noteq> None"
  then obtain a p rest where "ref_at (x # rw tbl xs) = Some (a, p, rest)" by auto
  from ref_at_parts[OF this] obtain q val q2 where
    eq: "x # rw tbl xs = (a @ ''='') @ q # val @ [q2] @ rest" and q: "rx_quote q" "rx_quote q2"
    and val: "val \<noteq> []" "list_all rx_not_quote val" and a: "a = ''href'' \<or> a = ''src''"
    by auto
  have nq: "\<forall>c \<in> set (a @ ''=''). rx_not_quote c"
    using a by (auto simp: rx_not_quote_def rx_quote_def)
  from q have nqq: "\<not> rx_not_quote q" by (simp add: quote_not)
  from eq a have x: "rx_not_quote x" by (auto simp: rx_not_quote_def rx_quote_def)
  have t1: "takeWhile rx_not_quote (x # rw tbl xs) = a @ ''=''"
    and d1: "dropWhile rx_not_quote (x # rw tbl xs) \<noteq> []"
    unfolding eq
    using takeWhile_append2[of "a @ ''=''" rx_not_quote "q # val @ [q2] @ rest"]
      dropWhile_append2[of "a @ ''=''" rx_not_quote "q # val @ [q2] @ rest"] nq nqq by simp_all
  have t2: "takeWhile rx_not_quote (x # xs) = a @ ''=''"
    using t1 x rw_first_quote[of tbl xs] by simp
  have "dropWhile rx_not_quote (rw tbl xs) \<noteq> []"
  proof
    assume "dropWhile rx_not_quote (rw tbl xs) = []"
    with x have "dropWhile rx_not_quote (x # rw tbl xs) = []" by (simp only: dropWhile.simps if_True)
    with d1 show False by (simp only:)
  qed
  with rw_first_quote[of tbl xs] have "dropWhile rx_not_quote xs \<noteq> []" by blast
  moreover have "dropWhile rx_not_quote (x # xs) = dropWhile rx_not_quote xs" using x by simp
  ultimately have d2: "dropWhile rx_not_quote (x # xs) \<noteq> []" by metis
  from d2 obtain q0 V where d: "dropWhile rx_not_quote (x # xs) = q0 # V"
    by (cases "dropWhile rx_not_quote (x # xs)") auto
  then have q0: "rx_quote q0"
    using hd_dropWhile[of rx_not_quote "x # xs"] by (simp add: quote_not)
  from t2 d takeWhile_dropWhile_id[of rx_not_quote "x # xs"]
  have xs: "x # xs = (a @ ''='') @ q0 # V" by simp
  with a have xs': "xs = tl (a @ ''='') @ q0 # V" by auto
  from a have hd_a: "x # tl (a @ ''='') = a @ ''=''" using xs by auto
  have "x # rw tbl xs = (a @ ''='') @ q0 # rw tbl V"
    unfolding xs' rw_after_attr[OF a q0] using hd_a by simp
  with eq have rv: "rw tbl V = val @ [q2] @ rest" by simp
  from q(2) have nq2: "\<not> rx_not_quote q2" by (simp add: quote_not)
  from val(2) have all: "\<forall>c \<in> set val. rx_not_quote c" by (simp add: list_all_iff)
  have "takeWhile rx_not_quote (rw tbl V) = val" "dropWhile rx_not_quote (rw tbl V) \<noteq> []"
    unfolding rv
    using takeWhile_append2[of val rx_not_quote "q2 # rest"]
      dropWhile_append2[of val rx_not_quote "q2 # rest"] all nq2 by simp_all
  with rw_first_quote[of tbl V] val(1)
  have "takeWhile rx_not_quote V \<noteq> [] \<and> dropWhile rx_not_quote V \<noteq> []" by metis
  then have "ref_value V \<noteq> None" by (simp only: ref_value_def Let_def) simp
  moreover have "ref_open (x # xs) = Some (a, V)"
    using ref_open_complete[OF a q0, of V] xs by simp
  ultimately have "ref_at (x # xs) \<noteq> None" by (auto simp: ref_at_def)
  with assms show False by simp
qed

subsection \<open>Rewriting a rewritten document\<close>

text \<open>
  The handles of a table stand apart from its keys when each handle is a non-empty text
  with no quote, does not start with a dot or a slash, and is not itself a key.
\<close>

definition handles_apart :: "(string \<rightharpoonup> string) \<Rightarrow> bool" where
  "handles_apart tbl =
     (\<forall>u \<in> ran tbl. u \<noteq> [] \<and> list_all rx_not_quote u
        \<and> hd u \<noteq> CHR ''.'' \<and> hd u \<noteq> CHR ''/'' \<and> tbl u = None)"

lemma ref_out_handle:
  assumes "handles_apart tbl" "tbl k = Some u" "a = ''href'' \<or> a = ''src''"
  shows \<open>rw tbl ((a @ ''="'' @ u @ ''"'') @ rest) = (a @ ''="'' @ u @ ''"'') @ rw tbl rest\<close>
proof -
  from assms(1,2) have u: "u \<noteq> []" "list_all rx_not_quote u" "hd u \<noteq> CHR ''.''"
    "hd u \<noteq> CHR ''/''" "tbl u = None"
    by (auto simp: handles_apart_def ran_def)
  have dq: \<open>rx_quote (CHR ''"'')\<close> by (simp add: rx_quote_def)
  from u(1,3) have "ref_path u = u" by (cases u) (auto simp: ref_path_def)
  moreover from u(1,4) have "\<not> prefix ''/'' u" by (cases u) auto
  ultimately have \<open>ref_out tbl a (ref_path u) (a @ ''='' @ [CHR ''"''] @ u @ [CHR ''"''])
                   = a @ ''='' @ [CHR ''"''] @ u @ [CHR ''"'']\<close>
    using u(5) by (simp add: ref_out_def)
  with rw_complete_ref[OF assms(3) dq dq u(1,2), of tbl rest] show ?thesis by simp
qed

lemma rw_idem:
  assumes "handles_apart tbl"
  shows "rw tbl (rw tbl s) = rw tbl s"
using assms proof (induction tbl s rule: rw.induct)
  case (1 tbl)
  show ?case by simp
next
  case (2 tbl x xs)
  show ?case
  proof (cases "ref_at (x # xs)")
    case None
    from ref_at_rewritten_tail[OF None] have "ref_at (x # rw tbl xs) = None" .
    then have "rw tbl (x # rw tbl xs) = x # rw tbl (rw tbl xs)" by (rule rw_None)
    with "2.IH"(1)[OF None "2.prems"] show ?thesis by (simp add: rw_None[OF None])
  next
    case (Some r)
    obtain a p rest where r: "r = (a, p, rest)" by (cases r)
    from Some r have at: "ref_at (x # xs) = Some (a, p, rest)" by simp
    from "2.IH"(2)[OF at refl refl "2.prems"] have ih: "rw tbl (rw tbl rest) = rw tbl rest" .
    from ref_at_parts[OF at] obtain q val q2 where
      eq: "x # xs = a @ ''='' @ [q] @ val @ [q2] @ rest" and q: "rx_quote q" "rx_quote q2"
      and val: "val \<noteq> []" "list_all rx_not_quote val" and p: "p = ref_path val"
      and a: "a = ''href'' \<or> a = ''src''"
      by auto
    define M where "M = a @ ''='' @ [q] @ val @ [q2]"
    have rwx: "rw tbl (x # xs) = ref_out tbl a p M @ rw tbl rest"
      unfolding eq using rw_complete_ref[OF a q val, of tbl rest] by (simp add: M_def p)
    show ?thesis
    proof (cases "tbl (if prefix ''/'' p then drop 1 p else p)")
      case None
      then have out: "ref_out tbl a p M = M" by (simp add: ref_out_def)
      have "rw tbl (M @ rw tbl rest) = ref_out tbl a p M @ rw tbl (rw tbl rest)"
        using rw_complete_ref[OF a q val, of tbl "rw tbl rest"] by (simp add: M_def p)
      with out ih show ?thesis unfolding rwx by simp
    next
      case (Some u)
      then have out: \<open>ref_out tbl a p M = a @ ''="'' @ u @ ''"''\<close> by (simp add: ref_out_def)
      from ref_out_handle[OF "2.prems" Some a, of "rw tbl rest"] ih
      show ?thesis unfolding rwx out by simp
    qed
  qed
qed

subsection \<open>C7: a reference and its file\<close>

text \<open>
  C7, as the specification states it, fails: a reference is replaced only when the scan
  reaches it outside an earlier match. In this document the attribute \<^verbatim>\<open>title\<close> holds the
  text \<^verbatim>\<open>src=\<close> in single quotes; the pattern matches from there to the opening quote of the
  script's \<^verbatim>\<open>src\<close>, a path with no file, and the reference to \<^verbatim>\<open>app.js\<close>, a file of the table,
  is left as it was.
\<close>

theorem C7_reference_rewritten_counterexample:
  \<open>rewriteRefs [''app.js'' \<mapsto> ''blob:1'']
     (''<p title='' @ [CHR 0x27] @ ''src='' @ [CHR 0x27] @ ''>x</p><script '' @ ''src="app.js"'' @ ''></script>'')
   = Inr (''<p title='' @ [CHR 0x27] @ ''src='' @ [CHR 0x27] @ ''>x</p><script '' @ ''src="app.js"'' @ ''></script>'')
   \<and> rewriteRefs [''app.js'' \<mapsto> ''blob:1'']
     (''<p title='' @ [CHR 0x27] @ ''src='' @ [CHR 0x27] @ ''>x</p><script '' @ ''src="app.js"'' @ ''></script>'')
   \<noteq> Inr (''<p title='' @ [CHR 0x27] @ ''src='' @ [CHR 0x27] @ ''>x</p><script '' @ ''src="blob:1"'' @ ''></script>'')\<close>
  by code_simp

text \<open>
  C7, amended: take a reference \<^verbatim>\<open>href\<close> or \<^verbatim>\<open>src\<close>, the equals sign, a quote, a value that is
  not empty and holds no quote, and a quote; let the text before it leave no opener
  unterminated (its last quote, if it has one, does not directly follow \<^verbatim>\<open>href=\<close> or \<^verbatim>\<open>src=\<close>).
  Then the rewriter returns, without an error, the rewritten text before, then the
  reference, then the rewritten text after, where the reference becomes the attribute with
  the resource handle in double quotes when the table has the key of the value (the value
  without a leading \<^verbatim>\<open>./\<close> that has text after it, then without a leading \<^verbatim>\<open>/\<close>), and is
  left character for character as it was when the table has no such key.
\<close>

theorem C7_reference_rewritten:
  assumes "attr = ''href'' \<or> attr = ''src''" and "rx_quote q1" and "rx_quote q2"
    and "v \<noteq> []" and "list_all rx_not_quote v" and "\<not> open_ref pre"
  shows \<open>\<exists>p t. rewriteRefs tbl pre = Inr p \<and> rewriteRefs tbl post = Inr t
           \<and> rewriteRefs tbl (pre @ attr @ ''='' @ [q1] @ v @ [q2] @ post)
               = Inr (p @ (case tbl (ref_key v) of
                            Some u \<Rightarrow> attr @ ''="'' @ u @ ''"''
                          | None \<Rightarrow> attr @ ''='' @ [q1] @ v @ [q2]) @ t)\<close>
proof -
  let ?ref = "attr @ ''='' @ [q1] @ v @ [q2]"
  from assms(1) have hd: "?ref @ post = [] \<or> hd (?ref @ post) = CHR ''h'' \<or> hd (?ref @ post) = CHR ''s''"
    by auto
  have "rw tbl (pre @ ?ref @ post) = rw tbl pre @ rw tbl (?ref @ post)"
    using rw_append[OF assms(6) hd] by simp
  also have "rw tbl (?ref @ post) = ref_out tbl attr (ref_path v) ?ref @ rw tbl post"
    using rw_complete_ref[OF assms(1-5), of tbl post] by simp
  also have \<open>ref_out tbl attr (ref_path v) ?ref
             = (case tbl (ref_key v) of Some u \<Rightarrow> attr @ ''="'' @ u @ ''"'' | None \<Rightarrow> ?ref)\<close>
    by (simp add: ref_out_def ref_key_def startsWith_def Let_def split: option.splits)
  finally show ?thesis by (simp add: rewriteRefs_rw)
qed

theorem C7_reference_rewritten_witness:
  \<open>rewriteRefs [''app.js'' \<mapsto> ''blob:1'']
     (''<link href="style.css"><script '' @ ''src'' @ ''='' @ [CHR ''"''] @ ''./app.js'' @ [CHR ''"'']
        @ ''></script>'')
   = Inr (''<link href="style.css"><script '' @ ''src="blob:1"'' @ ''></script>'')
   \<and> rewriteRefs [''app.js'' \<mapsto> ''blob:1'']
     (''<script '' @ ''src'' @ ''='' @ [CHR ''"''] @ ''missing.js'' @ [CHR ''"''] @ ''></script>'')
   = Inr (''<script '' @ ''src="missing.js"'' @ ''></script>'')\<close>
proof -
  let ?tbl = "[''app.js'' \<mapsto> ''blob:1'']"
  have a: "''src'' = ''href'' \<or> ''src'' = ''src''" by simp
  have q: \<open>rx_quote (CHR ''"'')\<close> by (simp add: rx_quote_def)
  have v1: "''./app.js'' \<noteq> []" "list_all rx_not_quote ''./app.js''"
    by (simp_all add: rx_not_quote_def rx_quote_def)
  have v2: "''missing.js'' \<noteq> []" "list_all rx_not_quote ''missing.js''"
    by (simp_all add: rx_not_quote_def rx_quote_def)
  have p1: \<open>\<not> open_ref ''<link href="style.css"><script ''\<close> by code_simp
  have p2: \<open>\<not> open_ref ''<script ''\<close> by code_simp
  have e1: \<open>rewriteRefs ?tbl ''<link href="style.css"><script ''
            = Inr ''<link href="style.css"><script ''\<close> by code_simp
  have e2: \<open>rewriteRefs ?tbl ''<script '' = Inr ''<script ''\<close> by code_simp
  have e3: \<open>rewriteRefs ?tbl ''></script>'' = Inr ''></script>''\<close> by code_simp
  have k1: "?tbl (ref_key ''./app.js'') = Some ''blob:1''" by code_simp
  have k2: "?tbl (ref_key ''missing.js'') = None" by code_simp
  from C7_reference_rewritten[OF a q q v1 p1, of ?tbl "''></script>''"] e1 e3 k1
  have 1: \<open>rewriteRefs ?tbl
     (''<link href="style.css"><script '' @ ''src'' @ ''='' @ [CHR ''"''] @ ''./app.js'' @ [CHR ''"'']
        @ ''></script>'')
   = Inr (''<link href="style.css"><script '' @ ''src="blob:1"'' @ ''></script>'')\<close>
    by simp
  from C7_reference_rewritten[OF a q q v2 p2, of ?tbl "''></script>''"] e2 e3 k2
  have 2: \<open>rewriteRefs ?tbl
     (''<script '' @ ''src'' @ ''='' @ [CHR ''"''] @ ''missing.js'' @ [CHR ''"''] @ ''></script>'')
   = Inr (''<script '' @ ''src="missing.js"'' @ ''></script>'')\<close>
    by simp
  from 1 2 show ?thesis by (rule conjI)
qed

subsection \<open>C9: rewriting twice\<close>

text \<open>
  C9: the resource handles are the browser's; as the claim says of them, let no handle of
  the table be a key of the table, and let each be a non-empty text with no quote that
  does not start as a relative path (with a dot or a slash). Then the rewriter, applied to
  its own output with the same table, returns that output again.
\<close>

theorem C9_rewrite_idempotent:
  assumes "\<forall>u \<in> ran tbl. u \<noteq> [] \<and> list_all rx_not_quote u
             \<and> hd u \<noteq> CHR ''.'' \<and> hd u \<noteq> CHR ''/'' \<and> tbl u = None"
  shows "\<exists>d. rewriteRefs tbl doc = Inr d \<and> rewriteRefs tbl d = Inr d"
proof -
  from assms have "handles_apart tbl" by (simp add: handles_apart_def)
  from rw_idem[OF this, of doc] show ?thesis by (simp add: rewriteRefs_rw)
qed

theorem C9_rewrite_idempotent_witness:
  \<open>rewriteRefs [''app.js'' \<mapsto> ''blob:http://localhost/1'']
     ''<script src="./app.js"></script><img src="missing.png">''
   = Inr ''<script src="blob:http://localhost/1"></script><img src="missing.png">''
   \<and> rewriteRefs [''app.js'' \<mapsto> ''blob:http://localhost/1'']
     ''<script src="blob:http://localhost/1"></script><img src="missing.png">''
   = Inr ''<script src="blob:http://localhost/1"></script><img src="missing.png">''\<close>
proof -
  let ?tbl = "[''app.js'' \<mapsto> ''blob:http://localhost/1'']"
  have h: "\<forall>u \<in> ran ?tbl. u \<noteq> [] \<and> list_all rx_not_quote u
             \<and> hd u \<noteq> CHR ''.'' \<and> hd u \<noteq> CHR ''/'' \<and> ?tbl u = None"
    by (simp add: rx_not_quote_def rx_quote_def)
  have e: \<open>rewriteRefs ?tbl ''<script src="./app.js"></script><img src="missing.png">''
   = Inr ''<script src="blob:http://localhost/1"></script><img src="missing.png">''\<close>
    by code_simp
  from C9_rewrite_idempotent[OF h, of \<open>''<script src="./app.js"></script><img src="missing.png">''\<close>] e
  show ?thesis by simp
qed

end
